theory Spec2Isabelle
  imports Main "HOL-Library.AList" "HOL-Library.Sublist"
begin

section \<open>Python values used by compare\_catalogs.py\<close>

text \<open>
  A Python \<open>str\<close> is a sequence of Unicode code points, so a string is a list of
  natural numbers (one per code point); \<open>S ''abc''\<close> writes an ASCII literal.
  A Python \<open>dict\<close> keeps insertion order and has unique keys: it is an association
  list whose keys are distinct, \<open>map_of\<close> is \<open>d.get(k)\<close> and
  \<open>AList.update k v d\<close> is \<open>d[k] = v\<close> (an existing key keeps its place, a new
  key goes last).
\<close>

type_synonym pstr = "nat list"

abbreviation (input) S :: "string \<Rightarrow> pstr" where
  "S s \<equiv> map of_char s"

datatype error = ValueError | AttributeError | KeyError | CsvError | FileNotFoundError

text \<open>\<open>str.isspace\<close> of one code point: the characters \<open>str.strip()\<close> removes.\<close>

definition isspace :: "nat \<Rightarrow> bool" where
  "isspace c \<longleftrightarrow>
     (9 \<le> c \<and> c \<le> 13) \<or> (28 \<le> c \<and> c \<le> 32) \<or> c = 133 \<or> c = 160 \<or> c = 5760 \<or>
     (8192 \<le> c \<and> c \<le> 8202) \<or> c = 8232 \<or> c = 8233 \<or> c = 8239 \<or> c = 8287 \<or> c = 12288"

definition strip :: "pstr \<Rightarrow> pstr" where
  "strip s = rev (dropWhile isspace (rev (dropWhile isspace s)))"

definition startswith_ch :: "pstr \<Rightarrow> nat \<Rightarrow> bool" where
  "startswith_ch s c = (case s of [] \<Rightarrow> False | x # _ \<Rightarrow> x = c)"

definition endswith_ch :: "pstr \<Rightarrow> nat \<Rightarrow> bool" where
  "endswith_ch s c = (s \<noteq> [] \<and> last s = c)"

abbreviation (input) dquote :: nat where "dquote \<equiv> 34"
abbreviation (input) squote :: nat where "squote \<equiv> 39"

text \<open>
  The test and slice that the source writes out twice (in \<open>replace_special_fields\<close> and
  in \<open>parse_additional_attributes\<close>):
  \<^verbatim>\<open>if (v.startswith('"') and v.endswith('"')) or (v.startswith("'") and v.endswith("'")): v = v[1:-1]\<close>
\<close>

definition strip_quotes :: "pstr \<Rightarrow> pstr" where
  "strip_quotes v =
     (if (startswith_ch v dquote \<and> endswith_ch v dquote) \<or>
         (startswith_ch v squote \<and> endswith_ch v squote)
      then butlast (tl v) else v)"

text \<open>
  \<open>s.split(sep)\<close> for a non-empty separator: cut at every occurrence found from the
  left, without overlap. (Python raises ValueError on an empty separator; the callers
  below make that branch explicit.)
\<close>

fun split_aux :: "pstr \<Rightarrow> pstr \<Rightarrow> pstr \<Rightarrow> pstr list" where
  "split_aux sep cur [] = [rev cur]"
| "split_aux sep cur (c # cs) =
     (if sep \<noteq> [] \<and> prefix sep (c # cs)
      then rev cur # split_aux sep [] (drop (length sep - 1) cs)
      else split_aux sep (c # cur) cs)"

definition split :: "pstr \<Rightarrow> pstr \<Rightarrow> pstr list" where
  "split s sep = split_aux sep [] s"

text \<open>\<open>s.replace(old, new)\<close> for a non-empty \<open>old\<close>.\<close>

fun replace :: "pstr \<Rightarrow> pstr \<Rightarrow> pstr \<Rightarrow> pstr" where
  "replace old new [] = []"
| "replace old new (c # cs) =
     (if old \<noteq> [] \<and> prefix old (c # cs)
      then new @ replace old new (drop (length old - 1) cs)
      else c # replace old new cs)"

text \<open>\<open>sep.join(parts)\<close>.\<close>

fun join :: "pstr \<Rightarrow> pstr list \<Rightarrow> pstr" where
  "join sep [] = []"
| "join sep [p] = p"
| "join sep (p # q # ps) = p @ sep @ join sep (q # ps)"

section \<open>Attribute codec\<close>

text \<open>
  \<open>html.unescape\<close> of the standard library returns its argument unchanged when it holds
  no \<open>&\<close>, and otherwise substitutes the character references it finds with the help of
  the HTML5 entity table. That substitution is the parameter \<open>cr\<close>.
\<close>

definition html_unescape :: "(pstr \<Rightarrow> pstr) \<Rightarrow> pstr \<Rightarrow> pstr" where
  "html_unescape cr s = (if 38 \<notin> set s then s else cr s)"

type_synonym attrs = "(pstr \<times> pstr) list"

abbreviation (input) eq_sign :: nat where "eq_sign \<equiv> 61"

text \<open>The loop \<open>for pair in pairs\<close> of \<open>parse_additional_attributes\<close>.\<close>

fun parse_pairs :: "(pstr \<Rightarrow> pstr) \<Rightarrow> pstr list \<Rightarrow> attrs \<Rightarrow> attrs" where
  "parse_pairs cr [] attributes = attributes"
| "parse_pairs cr (pair # pairs) attributes =
     (if eq_sign \<in> set pair
      then
        (let key = strip (takeWhile (\<lambda>c. c \<noteq> eq_sign) pair);
             value = strip (tl (dropWhile (\<lambda>c. c \<noteq> eq_sign) pair));
             value = html_unescape cr value;
             value = strip_quotes value
         in parse_pairs cr pairs (AList.update key value attributes))
      else parse_pairs cr pairs (AList.update (strip pair) [] attributes))"

text \<open>
  \<open>attr_string\<close> is \<open>None\<close> or a string; \<open>not attr_string\<close> holds for \<open>None\<close> and for
  the empty string.
\<close>

definition parse_additional_attributes ::
  "(pstr \<Rightarrow> pstr) \<Rightarrow> pstr option \<Rightarrow> pstr \<Rightarrow> error + attrs" where
  "parse_additional_attributes cr attr_string attr_separator =
     (case attr_string of
        None \<Rightarrow> Inr []
      | Some s \<Rightarrow>
          if s = [] then Inr []
          else if attr_separator = [] then Inl ValueError
          else Inr (parse_pairs cr (split s attr_separator) []))"

type_synonym subdiffs = "(pstr \<times> (pstr \<times> pstr)) list"

text \<open>The two loops of \<open>diff_additional_attributes\<close>.\<close>

fun diff_stg_loop :: "attrs \<Rightarrow> pstr set \<Rightarrow> attrs \<Rightarrow> subdiffs \<Rightarrow> subdiffs" where
  "diff_stg_loop prod_attrs exclude_attrs [] diffs = diffs"
| "diff_stg_loop prod_attrs exclude_attrs ((key, stg_value) # items) diffs =
     (if key \<in> exclude_attrs then diff_stg_loop prod_attrs exclude_attrs items diffs
      else
        (let prod_value = (case map_of prod_attrs key of None \<Rightarrow> [] | Some v \<Rightarrow> v)
         in if prod_value \<noteq> stg_value
            then diff_stg_loop prod_attrs exclude_attrs items
                   (AList.update key (stg_value, prod_value) diffs)
            else diff_stg_loop prod_attrs exclude_attrs items diffs))"

fun diff_prod_loop :: "attrs \<Rightarrow> pstr set \<Rightarrow> attrs \<Rightarrow> subdiffs \<Rightarrow> subdiffs" where
  "diff_prod_loop stg_attrs exclude_attrs [] diffs = diffs"
| "diff_prod_loop stg_attrs exclude_attrs ((key, prod_value) # items) diffs =
     (if key \<in> exclude_attrs then diff_prod_loop stg_attrs exclude_attrs items diffs
      else if map_of stg_attrs key = None
      then diff_prod_loop stg_attrs exclude_attrs items (AList.update key ([], prod_value) diffs)
      else diff_prod_loop stg_attrs exclude_attrs items diffs)"

definition diff_additional_attributes ::
  "(pstr \<Rightarrow> pstr) \<Rightarrow> pstr \<Rightarrow> pstr \<Rightarrow> pstr \<Rightarrow> pstr set \<Rightarrow> error + subdiffs" where
  "diff_additional_attributes cr stg_val prod_val attr_separator exclude_attrs =
     (case parse_additional_attributes cr (Some stg_val) attr_separator of
        Inl e \<Rightarrow> Inl e
      | Inr stg_attrs \<Rightarrow>
          (case parse_additional_attributes cr (Some prod_val) attr_separator of
             Inl e \<Rightarrow> Inl e
           | Inr prod_attrs \<Rightarrow>
               Inr (diff_prod_loop stg_attrs exclude_attrs prod_attrs
                      (diff_stg_loop prod_attrs exclude_attrs stg_attrs []))))"

section \<open>Catalog differ\<close>

text \<open>
  A row as \<open>csv.DictReader\<close> builds it: the header's column names mapped to a string, or
  to \<open>None\<close> where the line was shorter than the header (\<open>cols\<close>), and, where the line
  was longer than the header, the surplus values as a non-empty list under the key
  \<open>None\<close>, inserted last (\<open>rest\<close>, empty when there is no such key).
\<close>

record row =
  cols :: "(pstr \<times> pstr option) list"
  rest :: "pstr list"

type_synonym catalog = "(pstr \<times> row) list"

type_synonym entry = "(pstr \<times> pstr) list"

text \<open>
  The dict literal
  \<^verbatim>\<open>{key_field: sku, "type": t, "field": f, "staging_value": s, "production_value": p}\<close>:
  the five items are stored from left to right.
\<close>

definition mk_entry :: "pstr \<Rightarrow> pstr \<Rightarrow> pstr \<Rightarrow> pstr \<Rightarrow> pstr \<Rightarrow> pstr \<Rightarrow> entry" where
  "mk_entry key_field sku t f s p =
     AList.update (S ''production_value'') p
       (AList.update (S ''staging_value'') s
         (AList.update (S ''field'') f
           (AList.update (S ''type'') t
             (AList.update key_field sku []))))"

definition or_empty :: "pstr option \<Rightarrow> pstr" where
  "or_empty v = (case v of None \<Rightarrow> [] | Some s \<Rightarrow> s)"

text \<open>
  The loop \<open>for field in stg_row.keys()\<close> over the named columns. \<open>prod_row.get(field)\<close>
  is \<open>None\<close> for a missing column and for a column holding \<open>None\<close>.
\<close>

fun compare_fields ::
  "(pstr \<Rightarrow> pstr) \<Rightarrow> pstr set \<Rightarrow> pstr \<Rightarrow> pstr \<Rightarrow> pstr set \<Rightarrow> pstr \<Rightarrow>
   pstr \<Rightarrow> row \<Rightarrow> (pstr \<times> pstr option) list \<Rightarrow> entry list \<Rightarrow> error + entry list" where
  "compare_fields cr ignore_fields special_field attr_separator excl key_field sku prod_row [] diffs =
     Inr diffs"
| "compare_fields cr ignore_fields special_field attr_separator excl key_field sku prod_row
     ((field, v) # flds) diffs =
     (if field \<in> ignore_fields
      then compare_fields cr ignore_fields special_field attr_separator excl key_field sku prod_row
             flds diffs
      else
        (let stg_val = strip (or_empty v);
             prod_val = strip (or_empty (case map_of (cols prod_row) field of None \<Rightarrow> None | Some w \<Rightarrow> w))
         in if field = special_field
            then
              (case diff_additional_attributes cr stg_val prod_val attr_separator excl of
                 Inl e \<Rightarrow> Inl e
               | Inr subdiffs \<Rightarrow>
                   compare_fields cr ignore_fields special_field attr_separator excl key_field sku
                     prod_row flds
                     (diffs @ map (\<lambda>(subkey, (stg_subval, prod_subval)).
                                mk_entry key_field sku (S ''different_value (additional_attribute)'')
                                  (special_field @ S '':'' @ subkey) stg_subval prod_subval) subdiffs))
            else if stg_val \<noteq> prod_val
            then compare_fields cr ignore_fields special_field attr_separator excl key_field sku
                   prod_row flds
                   (diffs @ [mk_entry key_field sku (S ''different_value'') field stg_val prod_val])
            else compare_fields cr ignore_fields special_field attr_separator excl key_field sku
                   prod_row flds diffs))"

text \<open>
  One staging row that has a production row. After the named columns, the loop reaches
  the key \<open>None\<close> when the row has surplus values: \<open>None\<close> is no column name of
  \<open>ignore_fields\<close>, \<open>stg_row[None] or ""\<close> is the non-empty list, and \<open>.strip()\<close> on a
  list raises AttributeError.
\<close>

definition compare_row ::
  "(pstr \<Rightarrow> pstr) \<Rightarrow> pstr set \<Rightarrow> pstr \<Rightarrow> pstr \<Rightarrow> pstr set \<Rightarrow> pstr \<Rightarrow>
   pstr \<Rightarrow> row \<Rightarrow> row \<Rightarrow> entry list \<Rightarrow> error + entry list" where
  "compare_row cr ignore_fields special_field attr_separator excl key_field sku stg_row prod_row diffs =
     (case compare_fields cr ignore_fields special_field attr_separator excl key_field sku prod_row
             (cols stg_row) diffs of
        Inl e \<Rightarrow> Inl e
      | Inr diffs' \<Rightarrow> if rest stg_row \<noteq> [] then Inl AttributeError else Inr diffs')"

text \<open>\<open>not prod_row\<close>: the key is missing, or its row is the empty dict.\<close>

definition row_falsy :: "row option \<Rightarrow> bool" where
  "row_falsy r = (case r of None \<Rightarrow> True | Some x \<Rightarrow> cols x = [] \<and> rest x = [])"

fun compare_staging ::
  "(pstr \<Rightarrow> pstr) \<Rightarrow> pstr set \<Rightarrow> pstr \<Rightarrow> pstr \<Rightarrow> pstr set \<Rightarrow> pstr \<Rightarrow>
   catalog \<Rightarrow> catalog \<Rightarrow> entry list \<Rightarrow> error + entry list" where
  "compare_staging cr ignore_fields special_field attr_separator excl key_field production [] diffs =
     Inr diffs"
| "compare_staging cr ignore_fields special_field attr_separator excl key_field production
     ((sku, stg_row) # items) diffs =
     (if row_falsy (map_of production sku)
      then compare_staging cr ignore_fields special_field attr_separator excl key_field production
             items (diffs @ [mk_entry key_field sku (S ''missing_in_production'') [] [] []])
      else
        (case compare_row cr ignore_fields special_field attr_separator excl key_field sku stg_row
                (the (map_of production sku)) diffs of
           Inl e \<Rightarrow> Inl e
         | Inr diffs' \<Rightarrow>
             compare_staging cr ignore_fields special_field attr_separator excl key_field production
               items diffs'))"

fun compare_production :: "catalog \<Rightarrow> pstr \<Rightarrow> pstr list \<Rightarrow> entry list \<Rightarrow> entry list" where
  "compare_production staging key_field [] diffs = diffs"
| "compare_production staging key_field (sku # skus) diffs =
     (if map_of staging sku = None
      then compare_production staging key_field skus
             (diffs @ [mk_entry key_field sku (S ''extra_in_production'') [] [] []])
      else compare_production staging key_field skus diffs)"

definition compare_catalogs ::
  "(pstr \<Rightarrow> pstr) \<Rightarrow> catalog \<Rightarrow> catalog \<Rightarrow> pstr set \<Rightarrow> pstr \<Rightarrow> pstr \<Rightarrow> pstr set \<Rightarrow> pstr \<Rightarrow>
   error + entry list" where
  "compare_catalogs cr staging production ignore_fields special_field attr_separator
     exclude_additional_attributes key_field =
     (case compare_staging cr ignore_fields special_field attr_separator
             exclude_additional_attributes key_field production staging [] of
        Inl e \<Rightarrow> Inl e
      | Inr diffs \<Rightarrow> Inr (compare_production staging key_field (map fst production) diffs))"

section \<open>Report writer\<close>

text \<open>
  \<open>html.escape(s)\<close> (with its default \<open>quote=True\<close>) is five \<open>str.replace\<close> calls, in
  this order: \<open>&\<close>, \<open><\<close>, \<open>>\<close>, the double quote, the single quote.
\<close>

definition html_escape :: "pstr \<Rightarrow> pstr" where
  "html_escape s =
     replace [squote] (S ''&#x27;'')
       (replace [dquote] (S ''&quot;'')
         (replace (S ''>'') (S ''&gt;'')
           (replace (S ''<'') (S ''&lt;'')
             (replace (S ''&'') (S ''&amp;'') s))))"

text \<open>
  The separator between the two values in the f-string of \<open>write_report\<close>. The source
  file holds it as the three code points U+00E2, U+2020, U+2019 (the UTF-8 bytes of the
  arrow U+2192 read back as Windows-1252).
\<close>

definition arrow :: pstr where
  "arrow = [226, 8224, 8217]"

definition render_value :: "pstr \<Rightarrow> pstr \<Rightarrow> pstr \<Rightarrow> pstr" where
  "render_value field stg_val prod_val =
     field @ S '' ['' @ stg_val @ S '' '' @ arrow @ S '' '' @ prod_val @ S '']''"

text \<open>
  \<^verbatim>\<open>any(field == html_field or field.startswith(f"{html_field}:") for html_field in html_fields)\<close>
\<close>

definition is_html_field :: "pstr list \<Rightarrow> pstr \<Rightarrow> bool" where
  "is_html_field html_fields field =
     list_ex (\<lambda>html_field. field = html_field \<or> prefix (html_field @ S '':'') field) html_fields"

text \<open>
  \<open>grouped\<close> maps a key to its list \<open>"diffs"\<close> and its value \<open>"product_websites"\<close>.
  \<open>d[k]\<close> on a dict without \<open>k\<close> raises KeyError.
\<close>

type_synonym grouped = "(pstr \<times> (pstr list \<times> pstr option)) list"

definition getitem :: "('k \<times> 'v) list \<Rightarrow> 'k \<Rightarrow> error + 'v" where
  "getitem d k = (case map_of d k of None \<Rightarrow> Inl KeyError | Some v \<Rightarrow> Inr v)"

definition append_diff :: "pstr \<Rightarrow> pstr \<Rightarrow> grouped \<Rightarrow> grouped" where
  "append_diff sku text g =
     (case map_of g sku of
        None \<Rightarrow> g
      | Some (ds, w) \<Rightarrow> AList.update sku (ds @ [text], w) g)"

definition render_diff :: "pstr list \<Rightarrow> entry \<Rightarrow> error + pstr" where
  "render_diff html_fields diff =
     (case getitem diff (S ''type'') of
        Inl e \<Rightarrow> Inl e
      | Inr t \<Rightarrow>
          if t = S ''missing_in_production'' then Inr (S ''missing_in_production'')
          else if t = S ''extra_in_production'' then Inr (S ''extra_in_production'')
          else
            (case getitem diff (S ''field'') of
               Inl e \<Rightarrow> Inl e
             | Inr field \<Rightarrow>
                 (case getitem diff (S ''staging_value'') of
                    Inl e \<Rightarrow> Inl e
                  | Inr stg_val \<Rightarrow>
                      (case getitem diff (S ''production_value'') of
                         Inl e \<Rightarrow> Inl e
                       | Inr prod_val \<Rightarrow>
                           if is_html_field html_fields field
                           then Inr (render_value field (html_escape stg_val) (html_escape prod_val))
                           else Inr (render_value field stg_val prod_val)))))"

text \<open>The loop \<open>for diff in diffs\<close>.\<close>

fun group_diffs :: "pstr list \<Rightarrow> pstr \<Rightarrow> entry list \<Rightarrow> grouped \<Rightarrow> error + grouped" where
  "group_diffs html_fields key_field [] g = Inr g"
| "group_diffs html_fields key_field (diff # diffs) g =
     (case getitem diff key_field of
        Inl e \<Rightarrow> Inl e
      | Inr sku \<Rightarrow>
          (let g1 = (if map_of g sku = None then AList.update sku ([], Some []) g else g)
           in case render_diff html_fields diff of
                Inl e \<Rightarrow> Inl e
              | Inr text \<Rightarrow> group_diffs html_fields key_field diffs (append_diff sku text g1)))"

text \<open>
  The loop \<open>for sku in grouped\<close>:
  \<^verbatim>\<open>stg_row.get("product_websites", "") if stg_row else ""\<close>.
\<close>

definition websites_of :: "catalog \<Rightarrow> pstr \<Rightarrow> pstr option" where
  "websites_of staging_data sku =
     (if row_falsy (map_of staging_data sku) then Some []
      else (case map_of (cols (the (map_of staging_data sku))) (S ''product_websites'') of
              None \<Rightarrow> Some []
            | Some w \<Rightarrow> w))"

definition fill_websites :: "catalog \<Rightarrow> grouped \<Rightarrow> grouped" where
  "fill_websites staging_data g = map (\<lambda>(sku, (ds, w)). (sku, (ds, websites_of staging_data sku))) g"

text \<open>
  One call of \<open>writer.writerow\<close>: the dict literal is built from left to right, and the
  writer emits \<open>rowdict.get(name)\<close> for every name of \<open>fieldnames\<close>, in their order.
\<close>

definition output_row :: "pstr \<Rightarrow> pstr \<Rightarrow> pstr list \<times> pstr option \<Rightarrow> pstr option list" where
  "output_row key_field sku info =
     (let rowdict =
            AList.update (S ''differences'') (Some (join (S ''; '') (fst info)))
              (AList.update (S ''product_websites'') (snd info)
                (AList.update key_field (Some sku) []))
      in map (\<lambda>name. case map_of rowdict name of None \<Rightarrow> Some [] | Some v \<Rightarrow> v)
           [key_field, S ''product_websites'', S ''differences''])"

text \<open>
  What \<open>write_report\<close> does to the world: the messages it prints, and the file it writes
  (its path, its header line and its rows, before CSV quoting), if any. The texts of the
  three printed messages are immaterial here and are a datatype.
\<close>

datatype notice = NoDifferences | ReportGenerated pstr | TotalDifferences nat

record report =
  printed :: "notice list"
  written :: "(pstr \<times> pstr list \<times> pstr option list list) option"

text \<open>
  \<open>os.path.dirname\<close> for POSIX paths: the path up to its last \<open>/\<close>, without the
  slashes at its end unless it consists of slashes only.
\<close>

definition dirname :: "pstr \<Rightarrow> pstr" where
  "dirname path =
     (let head = rev (dropWhile (\<lambda>c. c \<noteq> 47) (rev path))
      in if head \<noteq> [] \<and> \<not> list_all (\<lambda>c. c = 47) head
         then rev (dropWhile (\<lambda>c. c = 47) (rev head)) else head)"

text \<open>
  After the two loops, \<open>os.makedirs(os.path.dirname(output_file), exist_ok=True)\<close>
  raises FileNotFoundError when the directory part is the empty string, that is when
  \<open>output_file\<close> names a file without a directory. For any other path the file system
  is taken to let the directory be made and the file be written.
\<close>

definition write_report ::
  "entry list \<Rightarrow> pstr list \<Rightarrow> catalog \<Rightarrow> pstr \<Rightarrow> pstr \<Rightarrow> error + report" where
  "write_report diffs html_fields staging_data output_file key_field =
     (if diffs = [] then Inr \<lparr>printed = [NoDifferences], written = None\<rparr>
      else
        (case group_diffs html_fields key_field diffs [] of
           Inl e \<Rightarrow> Inl e
         | Inr g \<Rightarrow>
             if dirname output_file = [] then Inl FileNotFoundError
             else
             Inr \<lparr>printed = [ReportGenerated output_file, TotalDifferences (length diffs)],
                  written = Some (output_file,
                                  [key_field, S ''product_websites'', S ''differences''],
                                  map (\<lambda>(sku, info). output_row key_field sku info)
                                    (fill_websites staging_data g))\<rparr>))"

section \<open>Record loader\<close>

text \<open>
  \<open>content.splitlines()\<close>: a line ends at \<open>\n\<close>, \<open>\r\<close>, \<open>\r\n\<close>, \<open>\v\<close>, \<open>\f\<close>,
  \<open>\x1c\<close>, \<open>\x1d\<close>, \<open>\x1e\<close>, \<open>\x85\<close>, U+2028 or U+2029; the line ends are dropped and
  no empty line follows the last line end.
\<close>

definition is_linebreak :: "nat \<Rightarrow> bool" where
  "is_linebreak c \<longleftrightarrow> (10 \<le> c \<and> c \<le> 13) \<or> (28 \<le> c \<and> c \<le> 30) \<or> c = 133 \<or> c = 8232 \<or> c = 8233"

fun splitlines_aux :: "pstr \<Rightarrow> pstr \<Rightarrow> pstr list" where
  "splitlines_aux cur [] = (if cur = [] then [] else [rev cur])"
| "splitlines_aux cur (c # cs) =
     (if c = 13 \<and> cs \<noteq> [] \<and> hd cs = 10 then rev cur # splitlines_aux [] (tl cs)
      else if is_linebreak c then rev cur # splitlines_aux [] cs
      else splitlines_aux (c # cur) cs)"

definition splitlines :: "pstr \<Rightarrow> pstr list" where
  "splitlines content = splitlines_aux [] content"

definition PLACEHOLDER_COMMA :: pstr where "PLACEHOLDER_COMMA = S ''<<<COMMA>>>''"
definition PLACEHOLDER_NEWLINE :: pstr where "PLACEHOLDER_NEWLINE = S ''<<<NEWLINE>>>''"
definition PLACEHOLDER_SECTION :: pstr where "PLACEHOLDER_SECTION = S ''<<<SECTION>>>''"

text \<open>
  The marker that the source replaces by \<open>PLACEHOLDER_SECTION\<close>: in the source file it
  is the two code points U+00C2, U+00A7.
\<close>

definition section_marker :: pstr where
  "section_marker = [194, 167]"

text \<open>\<open>headers.index(special_field)\<close>, with \<open>None\<close> for the \<open>-1\<close> of the except branch.\<close>

fun index_of :: "'a list \<Rightarrow> 'a \<Rightarrow> nat option" where
  "index_of [] x = None"
| "index_of (y # ys) x = (if y = x then Some 0 else map_option Suc (index_of ys x))"

text \<open>
  The character loop of \<open>replace_special_fields\<close>. \<open>quote_char\<close> is the empty string
  until a quote opens.
\<close>

fun scan_line :: "nat \<Rightarrow> pstr \<Rightarrow> pstr list \<Rightarrow> pstr \<Rightarrow> bool \<Rightarrow> pstr \<Rightarrow> pstr list" where
  "scan_line delimiter [] parts current in_quotes quote_char = parts @ [current]"
| "scan_line delimiter (ch # line) parts current in_quotes quote_char =
     (if ch = dquote \<or> ch = squote
      then
        (if \<not> in_quotes then scan_line delimiter line parts (current @ [ch]) True [ch]
         else if quote_char = [ch] then scan_line delimiter line parts (current @ [ch]) False quote_char
         else scan_line delimiter line parts (current @ [ch]) in_quotes quote_char)
      else if ch = delimiter \<and> \<not> in_quotes
      then scan_line delimiter line (parts @ [current]) [] in_quotes quote_char
      else scan_line delimiter line parts (current @ [ch]) in_quotes quote_char)"

definition protect :: "pstr \<Rightarrow> pstr" where
  "protect val =
     replace section_marker PLACEHOLDER_SECTION
       (replace [13] PLACEHOLDER_NEWLINE
         (replace [10] PLACEHOLDER_NEWLINE
           (replace (S '','') PLACEHOLDER_COMMA val)))"

definition replace_special_fields :: "nat \<Rightarrow> nat option \<Rightarrow> pstr \<Rightarrow> pstr" where
  "replace_special_fields delimiter special_idx line =
     (let parts = scan_line delimiter line [] [] False []
      in case special_idx of
           None \<Rightarrow> join [delimiter] parts
         | Some i \<Rightarrow>
             if i < length parts
             then join [delimiter] (parts[i := protect (strip_quotes (parts ! i))])
             else join [delimiter] parts)"

definition restore :: "pstr \<Rightarrow> pstr" where
  "restore v =
     replace PLACEHOLDER_SECTION section_marker
       (replace PLACEHOLDER_NEWLINE [10]
         (replace PLACEHOLDER_COMMA (S '','') v))"

subsection \<open>The standard library's csv reader\<close>

text \<open>
  \<open>csv.DictReader(processed_lines, delimiter=delimiter)\<close> reads with the \<open>excel\<close>
  dialect: quote character \<open>"\<close>, doubled quotes, no escape character, no skipping of
  initial spaces, not strict. The reader is the state machine of the standard library
  (\<open>parse_process_char\<close> in \<open>_csv.c\<close>), here with that dialect fixed; the states for an
  escape character cannot be reached. \<open>None\<close> as input stands for the end of a line.
  Adding a character to a field that already holds \<open>csv.field_size_limit()\<close> characters
  (131072, the default, which the source does not change) raises \<open>csv.Error\<close>.
\<close>

datatype csv_state =
  START_RECORD | START_FIELD | IN_FIELD | IN_QUOTED_FIELD | QUOTE_IN_QUOTED_FIELD | EAT_CRNL

record parser =
  state :: csv_state
  saved :: "pstr list"
  field :: pstr

definition parse_reset :: parser where
  "parse_reset = \<lparr>state = START_RECORD, saved = [], field = []\<rparr>"

definition parse_save_field :: "parser \<Rightarrow> parser" where
  "parse_save_field p = p\<lparr>saved := saved p @ [field p], field := []\<rparr>"

definition field_limit :: nat where
  "field_limit = 131072"

definition parse_add_char :: "nat \<Rightarrow> parser \<Rightarrow> error + parser" where
  "parse_add_char c p =
     (if field_limit \<le> length (field p) then Inl CsvError else Inr (p\<lparr>field := field p @ [c]\<rparr>))"

definition with_state :: "csv_state \<Rightarrow> error + parser \<Rightarrow> error + parser" where
  "with_state s r = (case r of Inl e \<Rightarrow> Inl e | Inr p \<Rightarrow> Inr (p\<lparr>state := s\<rparr>))"

definition is_nl :: "nat option \<Rightarrow> bool" where
  "is_nl c = (c = Some 10 \<or> c = Some 13)"

definition after_eol :: "nat option \<Rightarrow> csv_state" where
  "after_eol c = (if c = None then START_RECORD else EAT_CRNL)"

definition start_field :: "nat \<Rightarrow> parser \<Rightarrow> nat option \<Rightarrow> error + parser" where
  "start_field delimiter p c =
     (if is_nl c \<or> c = None then Inr ((parse_save_field p)\<lparr>state := after_eol c\<rparr>)
      else if c = Some dquote then Inr (p\<lparr>state := IN_QUOTED_FIELD\<rparr>)
      else if c = Some delimiter then Inr (parse_save_field p)
      else with_state IN_FIELD (parse_add_char (the c) p))"

definition parse_process_char :: "nat \<Rightarrow> parser \<Rightarrow> nat option \<Rightarrow> error + parser" where
  "parse_process_char delimiter p c =
     (case state p of
        START_RECORD \<Rightarrow>
          if c = None then Inr p
          else if is_nl c then Inr (p\<lparr>state := EAT_CRNL\<rparr>)
          else start_field delimiter (p\<lparr>state := START_FIELD\<rparr>) c
      | START_FIELD \<Rightarrow> start_field delimiter p c
      | IN_FIELD \<Rightarrow>
          if is_nl c \<or> c = None then Inr ((parse_save_field p)\<lparr>state := after_eol c\<rparr>)
          else if c = Some delimiter then Inr ((parse_save_field p)\<lparr>state := START_FIELD\<rparr>)
          else parse_add_char (the c) p
      | IN_QUOTED_FIELD \<Rightarrow>
          if c = None then Inr p
          else if c = Some dquote then Inr (p\<lparr>state := QUOTE_IN_QUOTED_FIELD\<rparr>)
          else parse_add_char (the c) p
      | QUOTE_IN_QUOTED_FIELD \<Rightarrow>
          if c = Some dquote then with_state IN_QUOTED_FIELD (parse_add_char dquote p)
          else if c = Some delimiter then Inr ((parse_save_field p)\<lparr>state := START_FIELD\<rparr>)
          else if is_nl c \<or> c = None then Inr ((parse_save_field p)\<lparr>state := after_eol c\<rparr>)
          else with_state IN_FIELD (parse_add_char (the c) p)
      | EAT_CRNL \<Rightarrow>
          if is_nl c then Inr p
          else if c = None then Inr (p\<lparr>state := START_RECORD\<rparr>)
          else Inl CsvError)"

text \<open>The characters of one line, then the end of the line.\<close>

fun process_line :: "nat \<Rightarrow> parser \<Rightarrow> pstr \<Rightarrow> error + parser" where
  "process_line delimiter p [] = parse_process_char delimiter p None"
| "process_line delimiter p (c # cs) =
     (case parse_process_char delimiter p (Some c) of
        Inl e \<Rightarrow> Inl e
      | Inr p' \<Rightarrow> process_line delimiter p' cs)"

text \<open>
  All the records the reader yields from a list of lines. A record ends with the first
  line after which the state is \<open>START_RECORD\<close>; when the lines run out inside a quoted
  field, what was read so far is the last record.
\<close>

fun read_records :: "nat \<Rightarrow> parser \<Rightarrow> pstr list \<Rightarrow> error + pstr list list" where
  "read_records delimiter p [] =
     (if field p \<noteq> [] \<or> state p = IN_QUOTED_FIELD then Inr [saved (parse_save_field p)] else Inr [])"
| "read_records delimiter p (line # lines) =
     (case process_line delimiter p line of
        Inl e \<Rightarrow> Inl e
      | Inr p' \<Rightarrow>
          if state p' \<noteq> START_RECORD then read_records delimiter p' lines
          else (case read_records delimiter parse_reset lines of
                  Inl e \<Rightarrow> Inl e
                | Inr records \<Rightarrow> Inr (saved p' # records)))"

text \<open>
  \<open>csv.DictReader.__next__\<close>: \<open>dict(zip(fieldnames, row))\<close>, then the surplus values
  under the key \<open>None\<close>, or \<open>None\<close> for the field names that got no value.
\<close>

definition dict_row :: "pstr list \<Rightarrow> pstr list \<Rightarrow> row" where
  "dict_row fieldnames r =
     \<lparr>cols = foldl (\<lambda>d (k, v). AList.update k v d) []
               (zip fieldnames (map Some r) @ map (\<lambda>k. (k, None)) (drop (length r) fieldnames)),
      rest = drop (length fieldnames) r\<rparr>"

text \<open>
  The loop \<open>for row in reader\<close> of \<open>load_csv\<close>. The guard reads the key column before
  the free-text column is restored; the key under which the row is stored is read
  after it (\<open>k'\<close>), which matters when the two columns are the same.
\<close>

fun load_rows :: "pstr \<Rightarrow> pstr \<Rightarrow> row list \<Rightarrow> catalog \<Rightarrow> catalog" where
  "load_rows special_field key_field [] data = data"
| "load_rows special_field key_field (r # rows) data =
     (case map_of (cols r) key_field of
        None \<Rightarrow> load_rows special_field key_field rows data
      | Some None \<Rightarrow> load_rows special_field key_field rows data
      | Some (Some k) \<Rightarrow>
          if k = [] then load_rows special_field key_field rows data
          else
            (let r' = (case map_of (cols r) special_field of
                         Some (Some v) \<Rightarrow>
                           if v \<noteq> [] then r\<lparr>cols := AList.update special_field (Some (restore v)) (cols r)\<rparr>
                           else r
                       | _ \<Rightarrow> r);
                 k' = (case map_of (cols r') key_field of Some (Some w) \<Rightarrow> w | _ \<Rightarrow> k)
             in load_rows special_field key_field rows (AList.update (strip k') r' data)))"

text \<open>
  \<open>load_csv\<close>, from the text of the file on. The delimiter is one character. The first
  record the reader yields is the list of field names; the reader's empty records (from
  empty lines) are skipped by \<open>DictReader\<close>.
\<close>

definition load_csv :: "pstr \<Rightarrow> nat \<Rightarrow> pstr \<Rightarrow> pstr \<Rightarrow> error + catalog" where
  "load_csv content delimiter special_field key_field =
     (case splitlines content of
        [] \<Rightarrow> Inr []
      | header # lines \<Rightarrow>
          (let headers = split header [delimiter];
               special_idx = index_of headers special_field;
               processed_lines = header # map (replace_special_fields delimiter special_idx) lines
           in case read_records delimiter parse_reset processed_lines of
                Inl e \<Rightarrow> Inl e
              | Inr [] \<Rightarrow> Inr []
              | Inr (fieldnames # records) \<Rightarrow>
                  Inr (load_rows special_field key_field
                         (map (dict_row fieldnames) (filter (\<lambda>r. r \<noteq> []) records)) [])))"

section \<open>Well-formed inputs and the loops read as comprehensions\<close>

text \<open>
  The names of the four fixed items of a diff entry. A key column with one of these
  names would be overwritten inside the dict literal of \<open>mk_entry\<close>.
\<close>

definition entry_names :: "pstr set" where
  "entry_names = {S ''type'', S ''field'', S ''staging_value'', S ''production_value''}"

text \<open>
  No staging row that has a production row carries surplus values: the condition under
  which the loop over the columns never reaches the key \<open>None\<close>.
\<close>

definition matched_plain :: "catalog \<Rightarrow> catalog \<Rightarrow> bool" where
  "matched_plain staging production =
     list_all (\<lambda>(k, r). row_falsy (map_of production k) \<or> rest r = []) staging"

text \<open>Every record's free-text value is absent, empty or blank.\<close>

definition attrs_blank :: "pstr \<Rightarrow> catalog \<Rightarrow> bool" where
  "attrs_blank special_field c =
     list_all (\<lambda>(k, r). strip (or_empty (case map_of (cols r) special_field of
                                              None \<Rightarrow> None | Some w \<Rightarrow> w)) = []) c"

text \<open>
  A catalog of the data model: a dict (distinct keys) of records that are dicts of
  named columns (distinct names), hold at least one column and carry no surplus
  values.
\<close>

definition catalog_ok :: "catalog \<Rightarrow> bool" where
  "catalog_ok c \<longleftrightarrow>
     distinct (map fst c) \<and>
     list_all (\<lambda>(k, r). distinct (map fst (cols r)) \<and> cols r \<noteq> [] \<and> rest r = []) c"

text \<open>
  A loop that appends what its body yields for each element, and stops at the first
  error.
\<close>

fun collect :: "('a \<Rightarrow> error + 'b list) \<Rightarrow> 'a list \<Rightarrow> error + 'b list" where
  "collect f [] = Inr []"
| "collect f (x # xs) =
     (case f x of
        Inl e \<Rightarrow> Inl e
      | Inr ys \<Rightarrow> (case collect f xs of Inl e \<Rightarrow> Inl e | Inr zs \<Rightarrow> Inr (ys @ zs)))"

text \<open>The entries that one pass of the body of \<open>compare_fields\<close> appends.\<close>

definition field_entries ::
  "(pstr \<Rightarrow> pstr) \<Rightarrow> pstr set \<Rightarrow> pstr \<Rightarrow> pstr \<Rightarrow> pstr set \<Rightarrow> pstr \<Rightarrow>
   pstr \<Rightarrow> row \<Rightarrow> pstr \<times> pstr option \<Rightarrow> error + entry list" where
  "field_entries cr ignore_fields special_field attr_separator excl key_field sku prod_row fv =
     (let field = fst fv;
          stg_val = strip (or_empty (snd fv));
          prod_val = strip (or_empty (case map_of (cols prod_row) field of None \<Rightarrow> None | Some w \<Rightarrow> w))
      in if field \<in> ignore_fields then Inr []
         else if field = special_field
         then (case diff_additional_attributes cr stg_val prod_val attr_separator excl of
                 Inl e \<Rightarrow> Inl e
               | Inr subdiffs \<Rightarrow>
                   Inr (map (\<lambda>(subkey, (stg_subval, prod_subval)).
                          mk_entry key_field sku (S ''different_value (additional_attribute)'')
                            (special_field @ S '':'' @ subkey) stg_subval prod_subval) subdiffs))
         else if stg_val \<noteq> prod_val
         then Inr [mk_entry key_field sku (S ''different_value'') field stg_val prod_val]
         else Inr [])"

text \<open>The entries that one pass of the body of \<open>compare_staging\<close> appends.\<close>

definition row_entries ::
  "(pstr \<Rightarrow> pstr) \<Rightarrow> pstr set \<Rightarrow> pstr \<Rightarrow> pstr \<Rightarrow> pstr set \<Rightarrow> pstr \<Rightarrow>
   catalog \<Rightarrow> pstr \<times> row \<Rightarrow> error + entry list" where
  "row_entries cr ignore_fields special_field attr_separator excl key_field production item =
     (if row_falsy (map_of production (fst item))
      then Inr [mk_entry key_field (fst item) (S ''missing_in_production'') [] [] []]
      else
        (case collect (field_entries cr ignore_fields special_field attr_separator excl key_field
                         (fst item) (the (map_of production (fst item)))) (cols (snd item)) of
           Inl e \<Rightarrow> Inl e
         | Inr ds \<Rightarrow> if rest (snd item) \<noteq> [] then Inl AttributeError else Inr ds))"

text \<open>
  The union of the sub-keys of the two sides "in the order first observed in staging
  then production".
\<close>

definition union_order :: "attrs \<Rightarrow> attrs \<Rightarrow> pstr list" where
  "union_order stg_attrs prod_attrs =
     map fst stg_attrs @ filter (\<lambda>k. k \<notin> fst ` set stg_attrs) (map fst prod_attrs)"

section \<open>Documents that load as written\<close>

text \<open>
  The conditions of this section are sufficient for a document to load as written;
  they are not necessary.

  A field without the delimiter, without quote characters and without line ends, and
  within the csv reader's field limit.
\<close>

definition plain :: "nat \<Rightarrow> pstr \<Rightarrow> bool" where
  "plain d f \<longleftrightarrow>
     d \<notin> set f \<and> dquote \<notin> set f \<and> squote \<notin> set f \<and> 10 \<notin> set f \<and> 13 \<notin> set f \<and>
     length f \<le> field_limit"

text \<open>
  The protection of a value without line ends, as one pass: a comma becomes
  \<open>PLACEHOLDER_COMMA\<close>, the section marker becomes \<open>PLACEHOLDER_SECTION\<close>.
\<close>

fun enc :: "pstr \<Rightarrow> pstr" where
  "enc [] = []"
| "enc [c] = (if c = 44 then PLACEHOLDER_COMMA else [c])"
| "enc (c # c' # cs) =
     (if c = 44 then PLACEHOLDER_COMMA @ enc (c' # cs)
      else if c = 194 \<and> c' = 167 then PLACEHOLDER_SECTION @ enc cs
      else c # enc (c' # cs))"

text \<open>
  A free-text value that survives the three phases: no quote characters, no line
  ends, no \<open><\<close> (the first character of every placeholder), the delimiter only if
  the delimiter is the comma, the one character that the protection replaces, and a
  protected form within the csv reader's field limit.
\<close>

definition free_text_ok :: "nat \<Rightarrow> pstr \<Rightarrow> bool" where
  "free_text_ok d v \<longleftrightarrow>
     dquote \<notin> set v \<and> squote \<notin> set v \<and> 10 \<notin> set v \<and> 13 \<notin> set v \<and> 60 \<notin> set v \<and>
     (d = 44 \<or> d \<notin> set v) \<and> length (enc v) \<le> field_limit"

text \<open>
  A delimiter that is no quote character, no line end and no character of the
  placeholders \<open><<<COMMA>>>\<close> and \<open><<<SECTION>>>\<close>.
\<close>

definition delimiter_ok :: "nat \<Rightarrow> bool" where
  "delimiter_ok d \<longleftrightarrow> d \<notin> set (S ''<>COMASECTIN'') \<union> {dquote, squote, 10, 13}"

text \<open>
  How a free-text value stands in the document: bare, or wrapped in one pair of double
  or single quotes.
\<close>

definition wrap :: "nat option \<Rightarrow> pstr \<Rightarrow> pstr" where
  "wrap q v = (case q of None \<Rightarrow> v | Some c \<Rightarrow> c # v @ [c])"

text \<open>
  The line of the document for a row of values, the free-text value at
  index \<open>j\<close> wrapped as \<open>q\<close> says.
\<close>

definition doc_line :: "nat \<Rightarrow> nat \<Rightarrow> nat option \<times> pstr list \<Rightarrow> pstr" where
  "doc_line d j r = join [d] ((snd r)[j := wrap (fst r) (snd r ! j)])"

text \<open>
  A document row that loads as written: as many values as the header has names, the
  free-text value as \<open>free_text_ok\<close> says, wrapped in quotes if it holds the delimiter,
  every other value plain.
\<close>

definition row_ok :: "nat \<Rightarrow> nat \<Rightarrow> nat \<Rightarrow> nat option \<times> pstr list \<Rightarrow> bool" where
  "row_ok d n j r \<longleftrightarrow>
     length (snd r) = n \<and> free_text_ok d (snd r ! j) \<and>
     (fst r = None \<or> fst r = Some dquote \<or> fst r = Some squote) \<and>
     (fst r = None \<longrightarrow> d \<notin> set (snd r ! j)) \<and>
     (\<forall>i < n. i \<noteq> j \<longrightarrow> plain d (snd r ! i))"

text \<open>
  A field that the character loop of \<open>replace_special_fields\<close> passes through in one
  piece: free of quotes and delimiter, or a quote-free text inside one pair of quotes.
\<close>

definition scan_ok :: "nat \<Rightarrow> pstr \<Rightarrow> bool" where
  "scan_ok d f \<longleftrightarrow> (dquote \<notin> set f \<and> squote \<notin> set f \<and> d \<notin> set f) \<or>
     (\<exists>q v. (q = Some dquote \<or> q = Some squote) \<and> dquote \<notin> set v \<and> squote \<notin> set v \<and> f = wrap q v)"

text \<open>A field that the csv reader takes as it stands.\<close>

definition csv_plain :: "nat \<Rightarrow> pstr \<Rightarrow> bool" where
  "csv_plain d f \<longleftrightarrow>
     d \<notin> set f \<and> dquote \<notin> set f \<and> 10 \<notin> set f \<and> 13 \<notin> set f \<and> length f \<le> field_limit"

text \<open>
  The two steps of the body of \<open>load_rows\<close>: the row with its free-text value
  restored, and the key under which a row is stored, if it is stored.
\<close>

definition restored :: "pstr \<Rightarrow> row \<Rightarrow> row" where
  "restored special_field r =
     (case map_of (cols r) special_field of
        Some (Some v) \<Rightarrow>
          if v \<noteq> [] then r\<lparr>cols := AList.update special_field (Some (restore v)) (cols r)\<rparr> else r
      | _ \<Rightarrow> r)"

definition stored_key :: "pstr \<Rightarrow> pstr \<Rightarrow> row \<Rightarrow> pstr option" where
  "stored_key special_field key_field r =
     (case map_of (cols r) key_field of
        Some (Some k) \<Rightarrow>
          if k = [] then None
          else Some (strip (case map_of (cols (restored special_field r)) key_field of
                              Some (Some w) \<Rightarrow> w | _ \<Rightarrow> k))
      | _ \<Rightarrow> None)"

text \<open>The record that \<open>load_csv\<close> is to store for a row: the header's names with the row's values.\<close>

definition record_of :: "pstr list \<Rightarrow> pstr list \<Rightarrow> row" where
  "record_of names vals = \<lparr>cols = zip names (map Some vals), rest = []\<rparr>"

section \<open>The report as the specification words it\<close>

text \<open>The distinct elements of a list, in the order in which they first occur.\<close>

fun first_seen :: "'a list \<Rightarrow> 'a list" where
  "first_seen [] = []"
| "first_seen (x # xs) = x # first_seen (filter (\<lambda>y. y \<noteq> x) xs)"

text \<open>
  The rendered descriptions of the entries of one key, in the order of the entries, and
  the output row of that key: the key, the auxiliary value and the descriptions joined
  with \<open>"; "\<close>.
\<close>

definition descriptions :: "pstr list \<Rightarrow> pstr \<Rightarrow> entry list \<Rightarrow> pstr \<Rightarrow> pstr list" where
  "descriptions html_fields key_field diffs sku =
     map (\<lambda>e. projr (render_diff html_fields e))
       (filter (\<lambda>e. map_of e key_field = Some sku) diffs)"

definition report_row :: "pstr list \<Rightarrow> pstr \<Rightarrow> catalog \<Rightarrow> entry list \<Rightarrow> pstr \<Rightarrow> pstr option list" where
  "report_row html_fields key_field staging_data diffs sku =
     [Some sku, websites_of staging_data sku,
      Some (join (S ''; '') (descriptions html_fields key_field diffs sku))]"

section \<open>The attribute codec as the specification words it\<close>

text \<open>
  Trimming in the words of the specification: the whitespace at the front is dropped,
  and the whitespace at the end is dropped.
\<close>

fun ltrim :: "pstr \<Rightarrow> pstr" where
  "ltrim [] = []"
| "ltrim (c # cs) = (if isspace c then ltrim cs else c # cs)"

fun rtrim :: "pstr \<Rightarrow> pstr" where
  "rtrim [] = []"
| "rtrim (c # cs) = (let r = rtrim cs in if r = [] \<and> isspace c then [] else c # r)"

definition trim :: "pstr \<Rightarrow> pstr" where
  "trim s = rtrim (ltrim s)"

text \<open>
  "Strip one layer of surrounding matching quotes if present": a value of at least two
  characters whose first character is a quote and whose last character is the same
  quote loses the two; any other value stays.
\<close>

definition unquoted :: "pstr \<Rightarrow> pstr" where
  "unquoted v =
     (case v of
        q # c # cs \<Rightarrow>
          if (q = dquote \<or> q = squote) \<and> last (c # cs) = q then butlast (c # cs) else v
      | _ \<Rightarrow> v)"

text \<open>
  One pair of the attribute string, in the words of the specification: with an
  \<open>=\<close>, the text before the first \<open>=\<close> is the sub-key and the text after it the
  sub-value, both trimmed, the sub-value then unescaped (the substitution \<open>cr\<close> of
  character references applied to it) and freed of one layer of surrounding matching
  quotes; without an \<open>=\<close>, the trimmed pair is a sub-key with an empty sub-value.
\<close>

definition attribute_of_pair :: "(pstr \<Rightarrow> pstr) \<Rightarrow> pstr \<Rightarrow> pstr \<times> pstr" where
  "attribute_of_pair cr pair =
     (case index_of pair eq_sign of
        None \<Rightarrow> (trim pair, [])
      | Some i \<Rightarrow>
          (trim (take i pair), unquoted (cr (trim (drop (Suc i) pair)))))"

text \<open>
  The sub-value of a pair before the quotes are stripped: the text after the first
  \<open>=\<close>, trimmed and unescaped.
\<close>

definition raw_value :: "(pstr \<Rightarrow> pstr) \<Rightarrow> pstr \<Rightarrow> pstr" where
  "raw_value cr pair =
     (case index_of pair eq_sign of
        None \<Rightarrow> []
      | Some i \<Rightarrow> html_unescape cr (trim (drop (Suc i) pair)))"

text \<open>The item that one pass of the body of \<open>parse_pairs\<close> stores, with the code's own functions.\<close>

definition pair_item :: "(pstr \<Rightarrow> pstr) \<Rightarrow> pstr \<Rightarrow> pstr \<times> pstr" where
  "pair_item cr pair =
     (case index_of pair eq_sign of
        None \<Rightarrow> (strip pair, [])
      | Some i \<Rightarrow>
          (strip (take i pair), strip_quotes (html_unescape cr (strip (drop (Suc i) pair)))))"

section \<open>Dictionaries\<close>

lemma update_new: "k \<notin> fst ` set al \<Longrightarrow> AList.update k v al = al @ [(k, v)]"
  by (induction al) auto

text \<open>The definitions that evaluate \<open>load_csv\<close> on a concrete document.\<close>

lemmas load_eval =
  load_csv_def splitlines_def is_linebreak_def split_def replace_special_fields_def
  strip_quotes_def startswith_ch_def endswith_ch_def protect_def restore_def
  PLACEHOLDER_COMMA_def PLACEHOLDER_NEWLINE_def PLACEHOLDER_SECTION_def section_marker_def
  parse_reset_def parse_process_char_def start_field_def parse_save_field_def
  parse_add_char_def with_state_def field_limit_def is_nl_def after_eol_def dict_row_def
  strip_def isspace_def Let_def

section \<open>Properties of the attribute codec\<close>

text \<open>
  \<open>split\<close> cuts at the separator and nowhere else: joining the pieces with the separator
  gives the string back.
\<close>

lemma split_aux_nonempty: "split_aux sep cur s \<noteq> []"
  by (induction sep cur s rule: split_aux.induct) auto

lemma join_Cons: "ys \<noteq> [] \<Longrightarrow> join sep (x # ys) = x @ sep @ join sep ys"
  by (cases ys) auto

lemma join_split_aux: "join sep (split_aux sep cur s) = rev cur @ s"
proof (induction sep cur s rule: split_aux.induct)
  case (1 sep cur)
  show ?case by simp
next
  case (2 sep cur c cs)
  show ?case
  proof (cases "sep \<noteq> [] \<and> prefix sep (c # cs)")
    case True
    then obtain zs where zs: "c # cs = sep @ zs" by (auto simp: prefix_def)
    with True have "drop (length sep - 1) cs = zs"
      by (cases sep) auto
    then have ih: "join sep (split_aux sep [] (drop (length sep - 1) cs)) = zs"
      using 2(1)[OF True] by simp
    have "split_aux sep cur (c # cs) = rev cur # split_aux sep [] (drop (length sep - 1) cs)"
      using True by simp
    then have "join sep (split_aux sep cur (c # cs)) = rev cur @ sep @ zs"
      by (simp only: join_Cons[OF split_aux_nonempty] ih)
    then show ?thesis by (simp only: zs)
  next
    case False
    with 2(2)[OF False] show ?thesis by auto
  qed
qed

lemma join_split: "join sep (split s sep) = s"
  by (simp add: split_def join_split_aux)

lemma index_of_None: "index_of xs x = None \<longleftrightarrow> x \<notin> set xs"
  by (induction xs) auto

lemma index_of_Some:
  "index_of xs x = Some i \<Longrightarrow> take i xs = takeWhile (\<lambda>c. c \<noteq> x) xs \<and>
     drop (Suc i) xs = tl (dropWhile (\<lambda>c. c \<noteq> x) xs)"
  by (induction xs arbitrary: i) (auto split: if_splits)

lemma parse_pairs_step:
  "parse_pairs cr (pair # pairs) acc =
     parse_pairs cr pairs (AList.update (fst (pair_item cr pair))
                             (snd (pair_item cr pair)) acc)"
proof (cases "index_of pair eq_sign")
  case None
  then have "eq_sign \<notin> set pair"
    by (simp add: index_of_None)
  with None show ?thesis
    by (simp add: pair_item_def)
next
  case (Some i)
  then have "eq_sign \<in> set pair"
    using index_of_None[of pair eq_sign] by simp
  with Some index_of_Some[OF Some] show ?thesis
    by (simp add: pair_item_def Let_def)
qed

lemma map_of_parse_pairs:
  "map_of (parse_pairs cr pairs acc) =
     map_of (rev (map (pair_item cr) pairs) @ acc)"
proof (induction pairs arbitrary: acc)
  case Nil
  show ?case by simp
next
  case (Cons pair pairs)
  show ?case
    unfolding parse_pairs_step Cons.IH
    by (rule ext) (simp add: update_conv' map_add_def split: option.splits)
qed

lemma distinct_parse_pairs:
  "distinct (map fst acc) \<Longrightarrow> distinct (map fst (parse_pairs cr pairs acc))"
  by (induction pairs arbitrary: acc) (simp_all add: Let_def distinct_update)

lemma parse_distinct:
  "parse_additional_attributes cr s sep = Inr a \<Longrightarrow> distinct (map fst a)"
  by (auto simp: parse_additional_attributes_def distinct_parse_pairs
           split: option.splits if_splits)

text \<open>
  What the loop of \<open>parse_additional_attributes\<close> builds: every sub-key gets the value
  of the last pair that has this sub-key.
\<close>

lemma parse_additional_attributes_items:
  "parse_additional_attributes cr None sep = Inr [] \<and>
   parse_additional_attributes cr (Some []) sep = Inr [] \<and>
   (s \<noteq> [] \<longrightarrow> sep \<noteq> [] \<longrightarrow>
      (\<exists>a. parse_additional_attributes cr (Some s) sep = Inr a \<and>
           distinct (map fst a) \<and>
           map_of a = map_of (rev (map (pair_item cr) (split s sep)))))"
  by (simp add: parse_additional_attributes_def map_of_parse_pairs distinct_parse_pairs)

subsection \<open>The code's functions against the specification's words\<close>

lemma ltrim_dropWhile: "ltrim s = dropWhile isspace s"
  by (induction s) auto

lemma rtrim_dropWhile: "rtrim s = rev (dropWhile isspace (rev s))"
proof (induction s)
  case Nil
  show ?case by simp
next
  case (Cons c cs)
  show ?case
  proof (cases "dropWhile isspace (rev cs) = []")
    case True
    then have "\<And>x. x \<in> set (rev cs) \<Longrightarrow> isspace x" by (simp add: dropWhile_eq_Nil_conv)
    then have "dropWhile isspace (rev cs @ [c]) = dropWhile isspace [c]"
      by (rule dropWhile_append2)
    with Cons True show ?thesis by (simp add: Let_def)
  next
    case False
    then obtain x where "x \<in> set (rev cs)" "\<not> isspace x"
      by (auto simp: dropWhile_eq_Nil_conv)
    then have "dropWhile isspace (rev cs @ [c]) = dropWhile isspace (rev cs) @ [c]"
      by (intro dropWhile_append1)
    with Cons False show ?thesis by (simp add: Let_def)
  qed
qed

lemma strip_trim: "strip s = trim s"
  by (simp add: strip_def trim_def ltrim_dropWhile rtrim_dropWhile)

text \<open>
  The code's quote test agrees with the specification's words on every value but the
  two values that are one quote character: these the code turns into the empty string.
\<close>

lemma strip_quotes_unquoted:
  assumes "v \<noteq> [dquote]" "v \<noteq> [squote]"
  shows "strip_quotes v = unquoted v"
proof (cases v)
  case Nil
  then show ?thesis by (simp add: strip_quotes_def unquoted_def startswith_ch_def)
next
  case (Cons q w)
  show ?thesis
  proof (cases w)
    case Nil
    with Cons assms show ?thesis
      by (simp add: strip_quotes_def unquoted_def startswith_ch_def endswith_ch_def)
  next
    case (Cons c cs)
    with \<open>v = q # w\<close> show ?thesis
      by (auto simp: strip_quotes_def unquoted_def startswith_ch_def endswith_ch_def)
  qed
qed

lemma strip_quotes_lone: "strip_quotes [dquote] = [] \<and> strip_quotes [squote] = []"
  by (simp add: strip_quotes_def startswith_ch_def endswith_ch_def)

text \<open>
  A substitution of character references changes nothing in a string without \<open>&\<close>;
  for such a substitution the early return of \<open>html_unescape\<close> is invisible.
\<close>

lemma html_unescape_cr:
  assumes "\<And>v. 38 \<notin> set v \<Longrightarrow> cr v = v"
  shows "html_unescape cr s = cr s"
  using assms by (simp add: html_unescape_def)

lemma pair_item_words:
  assumes "\<And>v. 38 \<notin> set v \<Longrightarrow> cr v = v"
    and "raw_value cr pair \<noteq> [dquote]" "raw_value cr pair \<noteq> [squote]"
  shows "pair_item cr pair = attribute_of_pair cr pair"
proof (cases "index_of pair eq_sign")
  case None
  then show ?thesis by (simp add: pair_item_def attribute_of_pair_def strip_trim)
next
  case (Some i)
  with assms(2,3) show ?thesis
    by (simp add: pair_item_def attribute_of_pair_def raw_value_def strip_trim
         html_unescape_cr[OF assms(1)] strip_quotes_unquoted[unfolded strip_trim])
qed

lemma pair_item_key: "fst (pair_item cr pair) = fst (attribute_of_pair cr pair)"
  by (simp add: pair_item_def attribute_of_pair_def strip_trim split: option.splits)

text \<open>
  \<open>parse_additional_attributes\<close> against the specification's words. For a non-empty
  attribute string, a non-empty separator and a substitution of character references
  that changes nothing in a string without \<open>&\<close>, when no pair has a sub-value that
  is, once trimmed and unescaped, one quote character: the map returned gives every
  sub-key the value of the last pair with this sub-key, the pairs read as
  \<open>attribute_of_pair\<close> says.
\<close>

lemma parse_additional_attributes_words:
  assumes "s \<noteq> []" "sep \<noteq> []"
    and "\<forall>pair\<in>set (split s sep). raw_value cr pair \<noteq> [dquote] \<and> raw_value cr pair \<noteq> [squote]"
    and "\<forall>v. 38 \<notin> set v \<longrightarrow> cr v = v"
  shows "\<exists>a. parse_additional_attributes cr (Some s) sep = Inr a \<and>
             distinct (map fst a) \<and>
             map_of a = map_of (rev (map (attribute_of_pair cr) (split s sep)))"
proof -
  have "map (pair_item cr) (split s sep) = map (attribute_of_pair cr) (split s sep)"
    using assms(3,4) by (intro map_cong[OF refl] pair_item_words) auto
  with parse_additional_attributes_items[of cr sep s] assms(1,2) show ?thesis by simp
qed

text \<open>
  The sub-value is unescaped before its quotes are stripped: with a character
  reference substitution that turns \<open>&quot;\<close> into the double quote, the pair
  \<open>a=&quot;x&quot;\<close> gets the value \<open>x\<close>.
\<close>

lemma parse_additional_attributes_unescape_first:
  "parse_additional_attributes (replace (S ''&quot;'') [dquote])
     (Some (S ''a=&quot;x&quot;|b= \"y\" '')) (S ''|'') = Inr [(S ''a'', S ''x''), (S ''b'', S ''y'')] \<and>
   attribute_of_pair (replace (S ''&quot;'') [dquote]) (S ''a=&quot;x&quot;'') = (S ''a'', S ''x'') \<and>
   attribute_of_pair (replace (S ''&quot;'') [dquote]) (S ''b= \"y\" '') = (S ''b'', S ''y'')"
  by (simp add: parse_additional_attributes_def split_def strip_def isspace_def
        html_unescape_def strip_quotes_def startswith_ch_def endswith_ch_def
        attribute_of_pair_def trim_def unquoted_def)

text \<open>
  Claim C6, at the input where the code leaves it: the attribute string \<open>a="\<close>, whose
  sub-value is one double quote. A single character has no surrounding pair of
  quotes, so the sub-value in the words of the claim is that character
  (\<open>attribute_of_pair\<close>); the code finds that the value starts and ends with a double
  quote, takes \<open>value[1:-1]\<close> and stores the empty string.
\<close>

theorem parse_additional_attributes_lone_quote:
  "parse_additional_attributes (\<lambda>s. s) (Some (S ''a=\"'')) (S ''|'') = Inr [(S ''a'', [])] \<and>
   attribute_of_pair (\<lambda>s. s) (S ''a=\"'') = (S ''a'', S ''\"'')"
  by (simp add: parse_additional_attributes_def split_def strip_def isspace_def
        html_unescape_def strip_quotes_def startswith_ch_def endswith_ch_def
        attribute_of_pair_def trim_def unquoted_def)

section \<open>Properties of the attribute diff\<close>

lemma diff_stg_loop_eq:
  "distinct (map fst items) \<Longrightarrow> fst ` set items \<inter> fst ` set diffs = {} \<Longrightarrow>
   diff_stg_loop pa excl items diffs =
     diffs @ map (\<lambda>(k, v). (k, (v, or_empty (map_of pa k))))
               (filter (\<lambda>(k, v). k \<notin> excl \<and> or_empty (map_of pa k) \<noteq> v) items)"
proof (induction items arbitrary: diffs)
  case Nil
  then show ?case by simp
next
  case (Cons a items)
  obtain k v where a: "a = (k, v)" by (cases a)
  from Cons.prems have d: "distinct (map fst items)" and kn: "k \<notin> fst ` set items"
    and kd: "k \<notin> fst ` set diffs" and disj: "fst ` set items \<inter> fst ` set diffs = {}"
    by (auto simp: a)
  have disj': "fst ` set items \<inter> fst ` set (diffs @ [(k, w)]) = {}" for w
    using disj kn by auto
  show ?case
    using Cons.IH[OF d disj] Cons.IH[OF d disj'] kd
    by (simp add: a update_new or_empty_def Let_def)
qed

lemma diff_prod_loop_eq:
  "distinct (map fst items) \<Longrightarrow>
   {k \<in> fst ` set items. map_of sa k = None} \<inter> fst ` set diffs = {} \<Longrightarrow>
   diff_prod_loop sa excl items diffs =
     diffs @ map (\<lambda>(k, v). (k, ([], v)))
               (filter (\<lambda>(k, v). k \<notin> excl \<and> map_of sa k = None) items)"
proof (induction items arbitrary: diffs)
  case Nil
  then show ?case by simp
next
  case (Cons a items)
  obtain k v where a: "a = (k, v)" by (cases a)
  from Cons.prems have d: "distinct (map fst items)" and kn: "k \<notin> fst ` set items"
    and kd: "map_of sa k = None \<Longrightarrow> k \<notin> fst ` set diffs"
    and disj: "{k \<in> fst ` set items. map_of sa k = None} \<inter> fst ` set diffs = {}"
    by (auto simp: a)
  have disj': "{k \<in> fst ` set items. map_of sa k = None} \<inter> fst ` set (diffs @ [(k, w)]) = {}"
    for w using disj kn by auto
  show ?case
    using Cons.IH[OF d disj] Cons.IH[OF d disj'] kd
    by (simp add: a update_new)
qed

text \<open>
  What \<open>diff_additional_attributes\<close> returns: first the staging sub-keys, in their
  order, whose value differs from the production value (the empty string when
  production lacks the sub-key), then the production sub-keys that staging lacks, in
  their order; excluded sub-keys left out of both.
\<close>

lemma diff_additional_attributes_eq:
  assumes "parse_additional_attributes cr (Some stg_val) sep = Inr sa"
    and "parse_additional_attributes cr (Some prod_val) sep = Inr pa"
  shows "diff_additional_attributes cr stg_val prod_val sep excl =
     Inr (map (\<lambda>(k, v). (k, (v, or_empty (map_of pa k))))
               (filter (\<lambda>(k, v). k \<notin> excl \<and> or_empty (map_of pa k) \<noteq> v) sa)
          @ map (\<lambda>(k, v). (k, ([], v)))
               (filter (\<lambda>(k, v). k \<notin> excl \<and> map_of sa k = None) pa))"
proof -
  have ds: "distinct (map fst sa)" and dp: "distinct (map fst pa)"
    using assms parse_distinct by blast+
  let ?d1 = "map (\<lambda>(k, v). (k, (v, or_empty (map_of pa k))))
               (filter (\<lambda>(k, v). k \<notin> excl \<and> or_empty (map_of pa k) \<noteq> v) sa)"
  have 1: "diff_stg_loop pa excl sa [] = ?d1"
    using diff_stg_loop_eq[OF ds, of "[]" pa excl] by simp
  have sub: "fst ` set ?d1 \<subseteq> fst ` set sa" by force
  have "{k \<in> fst ` set pa. map_of sa k = None} \<inter> fst ` set ?d1 = {}"
    using sub by (auto simp: map_of_eq_None_iff)
  from diff_prod_loop_eq[OF dp this, of excl] 1 assms
  show ?thesis by (simp add: diff_additional_attributes_def)
qed

text \<open>
  Claim C2, at the input where the code leaves it: the sub-key \<open>flag\<close> is present on
  the staging side only (with the empty value, as a pair without \<open>=\<close> has), and the
  diff is empty; with the two sides exchanged the same sub-key is reported.
\<close>

theorem diff_additional_attributes_staging_only_flag:
  "parse_additional_attributes (\<lambda>s. s) (Some (S ''flag'')) (S ''|'') = Inr [(S ''flag'', [])] \<and>
   parse_additional_attributes (\<lambda>s. s) (Some []) (S ''|'') = Inr [] \<and>
   diff_additional_attributes (\<lambda>s. s) (S ''flag'') [] (S ''|'') {} = Inr [] \<and>
   diff_additional_attributes (\<lambda>s. s) [] (S ''flag'') (S ''|'') {} = Inr [(S ''flag'', ([], []))]"
  by (simp add: diff_additional_attributes_def parse_additional_attributes_def split_def
        strip_def isspace_def)

text \<open>
  The sub-keys of a decoded attribute string stand in the order in which the pairs
  first name them.
\<close>

lemma parse_pairs_keys:
  "distinct (map fst acc) \<Longrightarrow>
   map fst (parse_pairs cr pairs acc) =
     map fst acc @ first_seen (filter (\<lambda>k. k \<notin> fst ` set acc)
                                 (map (\<lambda>pair. fst (pair_item cr pair)) pairs))"
proof (induction pairs arbitrary: acc)
  case Nil
  show ?case by simp
next
  case (Cons pair pairs)
  let ?k = "fst (pair_item cr pair)"
  let ?v = "snd (pair_item cr pair)"
  let ?ks = "map (\<lambda>pair. fst (pair_item cr pair)) pairs"
  let ?acc' = "AList.update ?k ?v acc"
  have d: "distinct (map fst ?acc')" using Cons.prems by (simp add: distinct_update)
  have ih: "map fst (parse_pairs cr pairs ?acc') =
     map fst ?acc' @ first_seen (filter (\<lambda>k. k \<notin> fst ` set ?acc') ?ks)"
    by (rule Cons.IH[OF d])
  show ?case
  proof (cases "?k \<in> fst ` set acc")
    case True
    then have "map fst ?acc' = map fst acc" by (simp add: update_keys)
    moreover have "fst ` set ?acc' = fst ` set acc" using True by (auto simp: dom_update)
    ultimately show ?thesis
      unfolding parse_pairs_step ih using True by simp
  next
    case False
    then have "map fst ?acc' = map fst acc @ [?k]" by (simp add: update_keys)
    moreover have "filter (\<lambda>k. k \<notin> fst ` set ?acc') ?ks
                   = filter (\<lambda>y. y \<noteq> ?k) (filter (\<lambda>k. k \<notin> fst ` set acc) ?ks)"
      by (auto simp: dom_update intro: filter_cong)
    ultimately show ?thesis
      unfolding parse_pairs_step ih using False by simp
  qed
qed

lemma parse_additional_attributes_keys_first_seen:
  assumes "s \<noteq> []" "sep \<noteq> []"
  shows "\<exists>a. parse_additional_attributes cr (Some s) sep = Inr a \<and>
             map fst a = first_seen (map (\<lambda>pair. fst (pair_item cr pair)) (split s sep))"
  using assms parse_pairs_keys[of "[]" cr "split s sep"]
  by (simp add: parse_additional_attributes_def)

text \<open>
  The sub-keys of the attribute diff: not excluded, and either a staging sub-key whose
  value differs from the production value (the empty string when production lacks
  it), or a sub-key that production has and staging lacks. A staging sub-key with the
  empty value that production lacks is not among them.
\<close>

lemma diff_additional_attributes_keys:
  assumes "parse_additional_attributes cr (Some stg_val) sep = Inr sa"
    and "parse_additional_attributes cr (Some prod_val) sep = Inr pa"
    and "diff_additional_attributes cr stg_val prod_val sep excl = Inr sd"
  shows "k \<in> fst ` set sd \<longleftrightarrow>
           k \<notin> excl \<and>
           ((\<exists>v. map_of sa k = Some v \<and> or_empty (map_of pa k) \<noteq> v) \<or>
            (map_of sa k = None \<and> map_of pa k \<noteq> None))"
proof -
  have ds: "distinct (map fst sa)" and dp: "distinct (map fst pa)"
    using assms parse_distinct by blast+
  have sd: "sd = map (\<lambda>(k, v). (k, (v, or_empty (map_of pa k))))
               (filter (\<lambda>(k, v). k \<notin> excl \<and> or_empty (map_of pa k) \<noteq> v) sa)
          @ map (\<lambda>(k, v). (k, ([], v)))
               (filter (\<lambda>(k, v). k \<notin> excl \<and> map_of sa k = None) pa)"
    using diff_additional_attributes_eq[OF assms(1,2), of excl] assms(3) by simp
  have 1: "k \<in> fst ` set (map (\<lambda>(k, v). (k, (v, or_empty (map_of pa k))))
               (filter (\<lambda>(k, v). k \<notin> excl \<and> or_empty (map_of pa k) \<noteq> v) sa))
           \<longleftrightarrow> k \<notin> excl \<and> (\<exists>v. map_of sa k = Some v \<and> or_empty (map_of pa k) \<noteq> v)"
    using ds by (force simp: image_iff dest: map_of_SomeD)
  have 2: "k \<in> fst ` set (map (\<lambda>(k, v). (k, ([], v :: pstr)))
               (filter (\<lambda>(k, v). k \<notin> excl \<and> map_of sa k = None) pa))
           \<longleftrightarrow> k \<notin> excl \<and> map_of sa k = None \<and> map_of pa k \<noteq> None"
    using dp by (force simp: image_iff map_of_eq_None_iff dest: map_of_SomeD)
  show ?thesis unfolding sd using 1 2 by (auto simp: image_Un)
qed

section \<open>Properties of the catalog differ\<close>

lemma compare_fields_collect:
  "compare_fields cr ign sf sep excl kf sku pr flds diffs =
     (case collect (field_entries cr ign sf sep excl kf sku pr) flds of
        Inl e \<Rightarrow> Inl e | Inr new \<Rightarrow> Inr (diffs @ new))"
proof (induction flds arbitrary: diffs)
  case Nil
  show ?case by simp
next
  case (Cons fv flds)
  obtain field v where fv: "fv = (field, v)" by (cases fv)
  show ?case
    by (simp add: fv field_entries_def Let_def Cons.IH split: sum.splits)
qed

lemma compare_row_collect:
  "compare_row cr ign sf sep excl kf sku stg_row pr diffs =
     (case collect (field_entries cr ign sf sep excl kf sku pr) (cols stg_row) of
        Inl e \<Rightarrow> Inl e
      | Inr new \<Rightarrow> if rest stg_row \<noteq> [] then Inl AttributeError else Inr (diffs @ new))"
  by (simp add: compare_row_def compare_fields_collect split: sum.splits)

lemma compare_staging_collect:
  "compare_staging cr ign sf sep excl kf production items diffs =
     (case collect (row_entries cr ign sf sep excl kf production) items of
        Inl e \<Rightarrow> Inl e | Inr new \<Rightarrow> Inr (diffs @ new))"
proof (induction items arbitrary: diffs)
  case Nil
  show ?case by simp
next
  case (Cons item items)
  obtain sku stg_row where item: "item = (sku, stg_row)" by (cases item)
  show ?case
    by (simp add: item row_entries_def compare_row_collect Cons.IH split: sum.splits)
qed

lemma compare_production_eq:
  "compare_production staging kf skus diffs =
     diffs @ map (\<lambda>sku. mk_entry kf sku (S ''extra_in_production'') [] [] [])
               (filter (\<lambda>sku. map_of staging sku = None) skus)"
  by (induction skus arbitrary: diffs) simp_all

lemma compare_catalogs_collect:
  "compare_catalogs cr staging production ign sf sep excl kf =
     (case collect (row_entries cr ign sf sep excl kf production) staging of
        Inl e \<Rightarrow> Inl e
      | Inr new \<Rightarrow>
          Inr (new @ map (\<lambda>sku. mk_entry kf sku (S ''extra_in_production'') [] [] [])
                       (filter (\<lambda>sku. map_of staging sku = None) (map fst production))))"
  by (simp add: compare_catalogs_def compare_staging_collect compare_production_eq split: sum.splits)

lemma collect_Inr_concat:
  "collect f xs = Inr zs \<Longrightarrow>
     zs = concat (map (\<lambda>x. projr (f x)) xs) \<and> (\<forall>x\<in>set xs. \<exists>ys. f x = Inr ys)"
  by (induction xs arbitrary: zs) (auto split: sum.splits)

lemma collect_total:
  "(\<And>x. x \<in> set xs \<Longrightarrow> \<exists>ys. f x = Inr ys) \<Longrightarrow> \<exists>zs. collect f xs = Inr zs"
proof (induction xs)
  case Nil
  show ?case by simp
next
  case (Cons x xs)
  then obtain ys zs where "f x = Inr ys" "collect f xs = Inr zs"
    by (meson list.set_intros)
  then show ?case by simp
qed

lemma collect_all_empty:
  "(\<And>x. x \<in> set xs \<Longrightarrow> f x = Inr []) \<Longrightarrow> collect f xs = Inr []"
  by (induction xs) simp_all


lemma map_of_mk_entry_key:
  "kf \<notin> entry_names \<Longrightarrow> map_of (mk_entry kf sku t f s p) kf = Some sku"
  by (auto simp: mk_entry_def entry_names_def update_conv')

lemma map_of_mk_entry_type: "map_of (mk_entry kf sku t f s p) (S ''type'') = Some t"
  by (simp add: mk_entry_def update_conv')

lemma map_of_mk_entry_field: "map_of (mk_entry kf sku t f s p) (S ''field'') = Some f"
  by (simp add: mk_entry_def update_conv')

lemma map_of_mk_entry_staging_value:
  "map_of (mk_entry kf sku t f s p) (S ''staging_value'') = Some s"
  by (simp add: mk_entry_def update_conv')

lemma map_of_mk_entry_production_value:
  "map_of (mk_entry kf sku t f s p) (S ''production_value'') = Some p"
  by (simp add: mk_entry_def update_conv')

text \<open>The same four facts with the string literals evaluated, as the simplifier meets them.\<close>

lemmas map_of_mk_entry =
  map_of_mk_entry_type [simplified] map_of_mk_entry_field [simplified]
  map_of_mk_entry_staging_value [simplified] map_of_mk_entry_production_value [simplified]

lemma field_entries_key:
  assumes "field_entries cr ign sf sep excl kf sku pr fv = Inr ys" "kf \<notin> entry_names" "e \<in> set ys"
  shows "map_of e kf = Some sku"
  using assms
  by (auto simp: field_entries_def Let_def map_of_mk_entry_key split: if_splits sum.splits)

lemma row_entries_key:
  assumes "row_entries cr ign sf sep excl kf production item = Inr ys" "kf \<notin> entry_names" "e \<in> set ys"
  shows "map_of e kf = Some (fst item)"
proof (cases "row_falsy (map_of production (fst item))")
  case True
  with assms show ?thesis by (auto simp: row_entries_def map_of_mk_entry_key)
next
  case False
  with assms(1) obtain ds where
    c: "collect (field_entries cr ign sf sep excl kf (fst item) (the (map_of production (fst item))))
          (cols (snd item)) = Inr ds" and "ys = ds"
    by (auto simp: row_entries_def split: sum.splits if_splits)
  with collect_Inr_concat[OF c] assms(3) obtain fv zs where
    "field_entries cr ign sf sep excl kf (fst item) (the (map_of production (fst item))) fv = Inr zs"
    "e \<in> set zs"
    by fastforce
  then show ?thesis using field_entries_key assms(2) by blast
qed


lemma filter_collect_key:
  assumes "collect f items = Inr zs"
    and "\<And>item ys e. f item = Inr ys \<Longrightarrow> e \<in> set ys \<Longrightarrow> K e = Some (fst item)"
  shows "filter (\<lambda>e. K e = Some k) zs =
           concat (map (\<lambda>item. projr (f item)) (filter (\<lambda>item. fst item = k) items))"
  using assms(1)
proof (induction items arbitrary: zs)
  case Nil
  then show ?case by simp
next
  case (Cons item items)
  from Cons.prems obtain ys zs' where
    h: "f item = Inr ys" "collect f items = Inr zs'" "zs = ys @ zs'"
    by (auto split: sum.splits)
  have "filter (\<lambda>e. K e = Some k) ys = (if fst item = k then ys else [])"
    using assms(2)[OF h(1)] by (auto simp: filter_empty_conv intro: filter_True)
  with Cons.IH[OF h(2)] h show ?case by simp
qed

lemma distinct_filter_key:
  "distinct (map fst items) \<Longrightarrow> (k, r) \<in> set items \<Longrightarrow>
     filter (\<lambda>item. fst item = k) items = [(k, r)]"
proof (induction items)
  case Nil
  then show ?case by simp
next
  case (Cons a items)
  show ?case
  proof (cases "a = (k, r)")
    case True
    with Cons.prems have "\<forall>x\<in>set items. fst x \<noteq> k" by force
    then have "filter (\<lambda>item. fst item = k) items = []" by (simp add: filter_empty_conv)
    with True show ?thesis by simp
  next
    case False
    with Cons.prems have in_items: "(k, r) \<in> set items" by simp
    then have "k \<in> fst ` set items" by force
    with Cons.prems have "fst a \<noteq> k" by auto
    with Cons in_items show ?thesis by simp
  qed
qed

lemma filter_key_absent:
  "k \<notin> fst ` set items \<Longrightarrow> filter (\<lambda>item. fst item = k) items = []"
  by (auto simp: filter_empty_conv)

lemma distinct_filter_eq:
  "distinct xs \<Longrightarrow> filter (\<lambda>x. x = k \<and> P x) xs = (if k \<in> set xs \<and> P k then [k] else [])"
  by (induction xs) auto

lemma filter_extra_entries:
  assumes "kf \<notin> entry_names" "distinct skus"
  shows "filter (\<lambda>e. map_of e kf = Some k)
           (map (\<lambda>sku. mk_entry kf sku t [] [] []) (filter P skus)) =
         (if k \<in> set skus \<and> P k then [mk_entry kf k t [] [] []] else [])"
proof -
  have "filter (\<lambda>e. map_of e kf = Some k) (map (\<lambda>sku. mk_entry kf sku t [] [] []) (filter P skus))
        = map (\<lambda>sku. mk_entry kf sku t [] [] []) (filter (\<lambda>sku. sku = k \<and> P sku) skus)"
    using assms(1) by (simp add: filter_map o_def map_of_mk_entry_key conj_commute)
  also have "\<dots> = (if k \<in> set skus \<and> P k then [mk_entry kf k t [] [] []] else [])"
    using distinct_filter_eq[OF assms(2), of k P] by simp
  finally show ?thesis .
qed

lemma compare_catalogs_entries_of_key:
  assumes ok: "distinct (map fst staging)" "distinct (map fst production)" "kf \<notin> entry_names"
    and res: "compare_catalogs cr staging production ign sf sep excl kf = Inr ds"
  shows "filter (\<lambda>e. map_of e kf = Some k) ds =
           concat (map (\<lambda>item. projr (row_entries cr ign sf sep excl kf production item))
                    (filter (\<lambda>item. fst item = k) staging))
           @ (if k \<in> fst ` set production \<and> map_of staging k = None
              then [mk_entry kf k (S ''extra_in_production'') [] [] []] else [])"
proof -
  from res obtain new where
    c: "collect (row_entries cr ign sf sep excl kf production) staging = Inr new"
    and ds: "ds = new @ map (\<lambda>sku. mk_entry kf sku (S ''extra_in_production'') [] [] [])
                       (filter (\<lambda>sku. map_of staging sku = None) (map fst production))"
    by (auto simp: compare_catalogs_collect split: sum.splits)
  have 1: "filter (\<lambda>e. map_of e kf = Some k) new =
           concat (map (\<lambda>item. projr (row_entries cr ign sf sep excl kf production item))
                    (filter (\<lambda>item. fst item = k) staging))"
    by (rule filter_collect_key[OF c]) (rule row_entries_key[OF _ ok(3)])
  show ?thesis
    unfolding ds filter_append 1 filter_extra_entries[OF ok(3) ok(2)] by simp
qed

lemma compare_catalogs_returns:
  assumes "matched_plain staging production" "sep \<noteq> []"
  shows "\<exists>ds. compare_catalogs cr staging production ign sf sep excl kf = Inr ds"
proof -
  have d: "\<exists>sd. diff_additional_attributes cr a b sep excl = Inr sd" for a b
    using assms(2)
    by (simp add: diff_additional_attributes_def parse_additional_attributes_def)
  have f: "\<exists>ys. field_entries cr ign sf sep excl kf sku pr fv = Inr ys" for sku pr fv
    using d[of "strip (or_empty (snd fv))"
               "strip (or_empty (case map_of (cols pr) (fst fv) of None \<Rightarrow> None | Some w \<Rightarrow> w))"]
    by (auto simp: field_entries_def Let_def)
  have r: "\<exists>ys. row_entries cr ign sf sep excl kf production item = Inr ys"
    if "item \<in> set staging" for item
  proof -
    from that assms(1) have "row_falsy (map_of production (fst item)) \<or> rest (snd item) = []"
      by (auto simp: matched_plain_def list_all_iff)
    moreover obtain zs where
      "collect (field_entries cr ign sf sep excl kf (fst item) (the (map_of production (fst item))))
         (cols (snd item)) = Inr zs"
      using collect_total[of "cols (snd item)"] f by meson
    ultimately show ?thesis by (auto simp: row_entries_def)
  qed
  obtain new where
    "collect (row_entries cr ign sf sep excl kf production) staging = Inr new"
    using collect_total[where f = "row_entries cr ign sf sep excl kf production" and xs = staging] r
    by blast
  then show ?thesis by (simp add: compare_catalogs_collect)
qed

text \<open>
  Claim C3 as stated fails. The first catalog is what \<open>load_csv\<close> returns for a
  document whose row \<open>A1\<close> has one value more than the header; \<open>A1\<close> is in production
  too, so its columns are compared, the loop reaches the surplus values under the key
  \<open>None\<close> and \<open>.strip()\<close> raises AttributeError: no sequence is returned, and the
  staging-only key \<open>B2\<close> gets no entry. With a key column named \<open>type\<close>, the dict
  literal of an entry overwrites the key with the kind, and the entry of the
  staging-only key \<open>B2\<close> does not carry \<open>B2\<close>.
\<close>

theorem compare_catalogs_surplus_raises:
  "load_csv (S ''sku,name'' @ [10] @ S ''A1,x,y'' @ [10] @ S ''B2,z'') 44
     (S ''additional_attributes'') (S ''sku'') =
     Inr [(S ''A1'', \<lparr>cols = [(S ''sku'', Some (S ''A1'')), (S ''name'', Some (S ''x''))],
                      rest = [S ''y'']\<rparr>),
          (S ''B2'', \<lparr>cols = [(S ''sku'', Some (S ''B2'')), (S ''name'', Some (S ''z''))],
                      rest = []\<rparr>)] \<and>
   compare_catalogs (\<lambda>s. s)
     [(S ''A1'', \<lparr>cols = [(S ''sku'', Some (S ''A1'')), (S ''name'', Some (S ''x''))],
                 rest = [S ''y'']\<rparr>),
      (S ''B2'', \<lparr>cols = [(S ''sku'', Some (S ''B2'')), (S ''name'', Some (S ''z''))],
                 rest = []\<rparr>)]
     [(S ''A1'', \<lparr>cols = [(S ''sku'', Some (S ''A1'')), (S ''name'', Some (S ''x''))],
                 rest = []\<rparr>)]
     {} (S ''additional_attributes'') (S ''|'') {} (S ''sku'') = Inl AttributeError \<and>
   compare_catalogs (\<lambda>s. s)
     [(S ''B2'', \<lparr>cols = [(S ''type'', Some (S ''B2''))], rest = []\<rparr>)] []
     {} (S ''additional_attributes'') (S ''|'') {} (S ''type'') =
     Inr [[(S ''type'', S ''missing_in_production''), (S ''field'', []),
           (S ''staging_value'', []), (S ''production_value'', [])]]"
  by (simp add: load_eval compare_catalogs_def row_falsy_def compare_row_def or_empty_def
        mk_entry_def)

text \<open>
  Claim C3, as amended. For catalogs that are dicts and a key column whose name is
  none of the four fixed entry names: \<open>compare_catalogs\<close> returns a sequence when no
  staging row that has a production row carries surplus values and the separator is
  not empty; and in every sequence it returns, every key of staging that production
  lacks has exactly one entry, the entry \<open>missing_in_production\<close> with empty field and
  values, and every key of production that staging lacks has exactly one entry, the
  entry \<open>extra_in_production\<close>.
\<close>

theorem compare_catalogs_missing_extra:
  assumes "distinct (map fst staging)" "distinct (map fst production)" "kf \<notin> entry_names"
  shows "(matched_plain staging production \<and> sep \<noteq> [] \<longrightarrow>
            (\<exists>ds. compare_catalogs cr staging production ign sf sep excl kf = Inr ds)) \<and>
         (\<forall>ds. compare_catalogs cr staging production ign sf sep excl kf = Inr ds \<longrightarrow>
           (\<forall>k. (k \<in> fst ` set staging \<and> k \<notin> fst ` set production \<longrightarrow>
                   filter (\<lambda>e. map_of e kf = Some k) ds =
                     [mk_entry kf k (S ''missing_in_production'') [] [] []]) \<and>
                (k \<in> fst ` set production \<and> k \<notin> fst ` set staging \<longrightarrow>
                   filter (\<lambda>e. map_of e kf = Some k) ds =
                     [mk_entry kf k (S ''extra_in_production'') [] [] []])))"
proof (intro conjI impI allI)
  assume "matched_plain staging production \<and> sep \<noteq> []"
  then show "\<exists>ds. compare_catalogs cr staging production ign sf sep excl kf = Inr ds"
    using compare_catalogs_returns by blast
next
  fix ds k
  assume ds: "compare_catalogs cr staging production ign sf sep excl kf = Inr ds"
    and k: "k \<in> fst ` set staging \<and> k \<notin> fst ` set production"
  note eq = compare_catalogs_entries_of_key[OF assms ds]
  from k obtain r where r: "(k, r) \<in> set staging" by auto
  have "map_of production k = None" using k by (simp add: map_of_eq_None_iff)
  moreover have "map_of staging k \<noteq> None" using k by (simp add: map_of_eq_None_iff)
  ultimately
  show "filter (\<lambda>e. map_of e kf = Some k) ds = [mk_entry kf k (S ''missing_in_production'') [] [] []]"
    using eq[of k] k distinct_filter_key[OF assms(1) r]
    by (simp add: row_entries_def row_falsy_def)
next
  fix ds k
  assume ds: "compare_catalogs cr staging production ign sf sep excl kf = Inr ds"
    and k: "k \<in> fst ` set production \<and> k \<notin> fst ` set staging"
  note eq = compare_catalogs_entries_of_key[OF assms ds]
  have "map_of staging k = None" using k by (simp add: map_of_eq_None_iff)
  then show "filter (\<lambda>e. map_of e kf = Some k) ds = [mk_entry kf k (S ''extra_in_production'') [] [] []]"
    using eq[of k] k filter_key_absent[of k staging] by simp
qed

theorem compare_catalogs_missing_extra_witness:
  "matched_plain [(S ''A'', \<lparr>cols = [(S ''sku'', Some (S ''A''))], rest = [S ''x'']\<rparr>)] [(S ''B'', \<lparr>cols = [(S ''sku'', Some (S ''B''))], rest = []\<rparr>)] \<and>
   compare_catalogs (\<lambda>s. s) [(S ''A'', \<lparr>cols = [(S ''sku'', Some (S ''A''))], rest = [S ''x'']\<rparr>)] [(S ''B'', \<lparr>cols = [(S ''sku'', Some (S ''B''))], rest = []\<rparr>)]
     {} (S ''additional_attributes'') (S ''|'') {} (S ''sku'') =
   Inr [mk_entry (S ''sku'') (S ''A'') (S ''missing_in_production'') [] [] [],
        mk_entry (S ''sku'') (S ''B'') (S ''extra_in_production'') [] [] []] \<and>
   filter (\<lambda>e. map_of e (S ''sku'') = Some (S ''A''))
     [mk_entry (S ''sku'') (S ''A'') (S ''missing_in_production'') [] [] [],
      mk_entry (S ''sku'') (S ''B'') (S ''extra_in_production'') [] [] []] =
     [mk_entry (S ''sku'') (S ''A'') (S ''missing_in_production'') [] [] []] \<and>
   filter (\<lambda>e. map_of e (S ''sku'') = Some (S ''B''))
     [mk_entry (S ''sku'') (S ''A'') (S ''missing_in_production'') [] [] [],
      mk_entry (S ''sku'') (S ''B'') (S ''extra_in_production'') [] [] []] =
     [mk_entry (S ''sku'') (S ''B'') (S ''extra_in_production'') [] [] []]"
proof -
  have h1: "distinct (map fst [(S ''A'', \<lparr>cols = [(S ''sku'', Some (S ''A''))], rest = [S ''x'']\<rparr>)])" by simp
  have h2: "distinct (map fst [(S ''B'', \<lparr>cols = [(S ''sku'', Some (S ''B''))], rest = []\<rparr>)])" by simp
  have h3: "S ''sku'' \<notin> entry_names" by (simp add: entry_names_def)
  have m: "matched_plain [(S ''A'', \<lparr>cols = [(S ''sku'', Some (S ''A''))], rest = [S ''x'']\<rparr>)] [(S ''B'', \<lparr>cols = [(S ''sku'', Some (S ''B''))], rest = []\<rparr>)]" by (simp add: matched_plain_def row_falsy_def)
  have ev: "compare_catalogs (\<lambda>s. s) [(S ''A'', \<lparr>cols = [(S ''sku'', Some (S ''A''))], rest = [S ''x'']\<rparr>)] [(S ''B'', \<lparr>cols = [(S ''sku'', Some (S ''B''))], rest = []\<rparr>)]
     {} (S ''additional_attributes'') (S ''|'') {} (S ''sku'') =
   Inr [mk_entry (S ''sku'') (S ''A'') (S ''missing_in_production'') [] [] [],
        mk_entry (S ''sku'') (S ''B'') (S ''extra_in_production'') [] [] []]"
    by (simp add: compare_catalogs_def row_falsy_def)
  have a: "S ''A'' \<in> fst ` set [(S ''A'', \<lparr>cols = [(S ''sku'', Some (S ''A''))], rest = [S ''x'']\<rparr>)] \<and> S ''A'' \<notin> fst ` set [(S ''B'', \<lparr>cols = [(S ''sku'', Some (S ''B''))], rest = []\<rparr>)]" by simp
  have b: "S ''B'' \<in> fst ` set [(S ''B'', \<lparr>cols = [(S ''sku'', Some (S ''B''))], rest = []\<rparr>)] \<and> S ''B'' \<notin> fst ` set [(S ''A'', \<lparr>cols = [(S ''sku'', Some (S ''A''))], rest = [S ''x'']\<rparr>)]" by simp
  note t = compare_catalogs_missing_extra[OF h1 h2 h3, of "S ''|''" "\<lambda>s. s" "{}"
              "S ''additional_attributes''" "{}", THEN conjunct2, rule_format, OF ev]
  from t[THEN conjunct1, rule_format, OF a] t[THEN conjunct2, rule_format, OF b] m ev
  show ?thesis by blast
qed

lemma diff_additional_attributes_self:
  assumes "sep \<noteq> [] \<or> x = []"
  shows "diff_additional_attributes cr x x sep excl = Inr []"
proof -
  obtain sa where sa: "parse_additional_attributes cr (Some x) sep = Inr sa"
    using assms by (cases "x = []") (simp_all add: parse_additional_attributes_def)
  have d: "distinct (map fst sa)" by (rule parse_distinct[OF sa])
  have 1: "filter (\<lambda>(k, v). k \<notin> excl \<and> or_empty (map_of sa k) \<noteq> v) sa = []"
    using d by (auto simp: filter_empty_conv or_empty_def)
  have 2: "filter (\<lambda>(k, v). k \<notin> excl \<and> map_of sa k = None) sa = []"
    by (auto simp: filter_empty_conv map_of_eq_None_iff intro: rev_image_eqI)
  show ?thesis
    using diff_additional_attributes_eq[OF sa sa, of excl] 1 2 by simp
qed

lemma field_entries_self:
  assumes "distinct (map fst (cols r))" "fv \<in> set (cols r)"
    and "sep \<noteq> [] \<or> sf \<in> ign \<or>
         strip (or_empty (case map_of (cols r) sf of None \<Rightarrow> None | Some w \<Rightarrow> w)) = []"
  shows "field_entries cr ign sf sep excl kf sku r fv = Inr []"
proof -
  obtain f v where fv: "fv = (f, v)" by (cases fv)
  with assms have m: "map_of (cols r) f = Some v" by simp
  show ?thesis
  proof (cases "f \<in> ign \<or> f \<noteq> sf")
    case True
    with m show ?thesis by (auto simp: field_entries_def fv Let_def)
  next
    case False
    with assms(3) m have "sep \<noteq> [] \<or> strip (or_empty v) = []" by auto
    from diff_additional_attributes_self[OF this] False m show ?thesis
      by (simp add: field_entries_def fv Let_def)
  qed
qed

lemma row_entries_self:
  assumes "catalog_ok c" "item \<in> set c" "sep \<noteq> [] \<or> sf \<in> ign \<or> attrs_blank sf c"
  shows "row_entries cr ign sf sep excl kf c item = Inr []"
proof -
  obtain k r where item: "item = (k, r)" by (cases item)
  from assms(1,2) have m: "map_of c k = Some r"
    and r: "distinct (map fst (cols r))" "cols r \<noteq> []" "rest r = []"
    by (auto simp: catalog_ok_def list_all_iff item)
  from assms(2,3) have b: "sep \<noteq> [] \<or> sf \<in> ign \<or>
         strip (or_empty (case map_of (cols r) sf of None \<Rightarrow> None | Some w \<Rightarrow> w)) = []"
    by (auto simp: attrs_blank_def list_all_iff item)
  have "collect (field_entries cr ign sf sep excl kf k r) (cols r) = Inr []"
    by (rule collect_all_empty) (rule field_entries_self[OF r(1) _ b])
  with m r show ?thesis by (simp add: row_entries_def item row_falsy_def)
qed

text \<open>
  Claim C4 as stated fails. The first catalog is what \<open>load_csv\<close> returns for a
  document whose only row has one value more than the header: compared with itself it
  makes \<open>compare_catalogs\<close> raise AttributeError on the surplus values. With the empty
  separator and a free-text value to decode, \<open>str.split\<close> raises ValueError. A record
  that is the empty dict counts as absent, and the comparison of such a catalog with
  itself yields a \<open>missing_in_production\<close> entry.
\<close>

theorem compare_catalogs_self_raises:
  "load_csv (S ''sku,name'' @ [10] @ S ''A1,x,y'') 44 (S ''additional_attributes'') (S ''sku'') =
     Inr [(S ''A1'', \<lparr>cols = [(S ''sku'', Some (S ''A1'')), (S ''name'', Some (S ''x''))],
                      rest = [S ''y'']\<rparr>)] \<and>
   compare_catalogs (\<lambda>s. s)
     [(S ''A1'', \<lparr>cols = [(S ''sku'', Some (S ''A1'')), (S ''name'', Some (S ''x''))],
                 rest = [S ''y'']\<rparr>)]
     [(S ''A1'', \<lparr>cols = [(S ''sku'', Some (S ''A1'')), (S ''name'', Some (S ''x''))],
                 rest = [S ''y'']\<rparr>)]
     {} (S ''additional_attributes'') (S ''|'') {} (S ''sku'') = Inl AttributeError \<and>
   compare_catalogs (\<lambda>s. s)
     [(S ''A1'', \<lparr>cols = [(S ''sku'', Some (S ''A1'')),
                         (S ''additional_attributes'', Some (S ''size=M''))], rest = []\<rparr>)]
     [(S ''A1'', \<lparr>cols = [(S ''sku'', Some (S ''A1'')),
                         (S ''additional_attributes'', Some (S ''size=M''))], rest = []\<rparr>)]
     {} (S ''additional_attributes'') [] {} (S ''sku'') = Inl ValueError \<and>
   compare_catalogs (\<lambda>s. s)
     [(S ''A1'', \<lparr>cols = [], rest = []\<rparr>)] [(S ''A1'', \<lparr>cols = [], rest = []\<rparr>)]
     {} (S ''additional_attributes'') (S ''|'') {} (S ''sku'') =
     Inr [mk_entry (S ''sku'') (S ''A1'') (S ''missing_in_production'') [] [] []]"
  by (simp add: load_eval compare_catalogs_def row_falsy_def compare_row_def or_empty_def
        diff_additional_attributes_def parse_additional_attributes_def)

text \<open>
  Claim C4, as amended. A catalog whose records are dicts with at least one column
  and without surplus values, compared with itself under any ignored columns, special
  field, excluded sub-attributes and key field, gives the empty sequence of diff
  entries, provided the separator is not empty, or the special field is ignored, or no
  record has a free-text value that is not blank.
\<close>

theorem compare_catalogs_self:
  assumes "catalog_ok c" "sep \<noteq> [] \<or> sf \<in> ign \<or> attrs_blank sf c"
  shows "compare_catalogs cr c c ign sf sep excl kf = Inr []"
proof -
  have "collect (row_entries cr ign sf sep excl kf c) c = Inr []"
    by (rule collect_all_empty) (rule row_entries_self[OF assms(1) _ assms(2)])
  moreover have "filter (\<lambda>sku. map_of c sku = None) (map fst c) = []"
    by (auto simp: filter_empty_conv map_of_eq_None_iff)
  ultimately show ?thesis by (simp add: compare_catalogs_collect)
qed

theorem compare_catalogs_self_witness:
  "catalog_ok [(S ''A1'', \<lparr>cols = [(S ''sku'', Some (S ''A1'')), (S ''color'', None),
                         (S ''additional_attributes'', Some (S ''size=M|note=ok''))],
                 rest = []\<rparr>)] \<and>
   compare_catalogs (\<lambda>s. s)
     [(S ''A1'', \<lparr>cols = [(S ''sku'', Some (S ''A1'')), (S ''color'', None),
                         (S ''additional_attributes'', Some (S ''size=M|note=ok''))],
                 rest = []\<rparr>)]
     [(S ''A1'', \<lparr>cols = [(S ''sku'', Some (S ''A1'')), (S ''color'', None),
                         (S ''additional_attributes'', Some (S ''size=M|note=ok''))],
                 rest = []\<rparr>)]
     {} (S ''additional_attributes'') (S ''|'') {} (S ''sku'') = Inr []"
proof -
  have h1: "catalog_ok [(S ''A1'', \<lparr>cols = [(S ''sku'', Some (S ''A1'')), (S ''color'', None),
                         (S ''additional_attributes'', Some (S ''size=M|note=ok''))],
                 rest = []\<rparr>)]" by (simp add: catalog_ok_def)
  have h2: "S ''|'' \<noteq> [] \<or> S ''additional_attributes'' \<in> {} \<or>
            attrs_blank (S ''additional_attributes'') [(S ''A1'', \<lparr>cols = [(S ''sku'', Some (S ''A1'')), (S ''color'', None),
                         (S ''additional_attributes'', Some (S ''size=M|note=ok''))],
                 rest = []\<rparr>)]" by simp
  from compare_catalogs_self[OF h1 h2, of "\<lambda>s. s" "{}" "S ''sku''"] h1
  show ?thesis by simp
qed

lemma field_entries_different_value:
  assumes "field_entries cr ign sf sep excl kf sku pr fv = Inr ys" "e \<in> set ys"
    and "map_of e (S ''type'') = Some (S ''different_value'')"
  shows "map_of e (S ''field'') = Some (fst fv)"
  using assms
  by (auto simp: field_entries_def Let_def map_of_mk_entry
           split: if_splits sum.splits)

lemma row_entries_different_value:
  assumes "row_entries cr ign sf sep excl kf production item = Inr ys" "e \<in> set ys"
    and "map_of e (S ''type'') = Some (S ''different_value'')"
  shows "the (map_of e (S ''field'')) \<in> fst ` set (cols (snd item))"
proof (cases "row_falsy (map_of production (fst item))")
  case True
  with assms show ?thesis by (auto simp: row_entries_def map_of_mk_entry)
next
  case False
  with assms(1) have
    c: "collect (field_entries cr ign sf sep excl kf (fst item) (the (map_of production (fst item))))
          (cols (snd item)) = Inr ys"
    by (auto simp: row_entries_def split: sum.splits if_splits)
  with collect_Inr_concat[OF c] assms(2) obtain fv zs where
    "fv \<in> set (cols (snd item))"
    "field_entries cr ign sf sep excl kf (fst item) (the (map_of production (fst item))) fv = Inr zs"
    "e \<in> set zs"
    by fastforce
  then show ?thesis using field_entries_different_value[OF _ _ assms(3)] by fastforce
qed

text \<open>
  Claim C10. Only the columns of the staging record are compared: in the sequence that
  \<open>compare_catalogs\<close> returns there is no \<open>different_value\<close> entry for a key \<open>k\<close>
  whose field is a column that the staging record of \<open>k\<close> lacks, whatever the
  production record holds in that column.
\<close>

theorem compare_catalogs_staging_columns_only:
  assumes "distinct (map fst staging)" "kf \<notin> entry_names"
    and "compare_catalogs cr staging production ign sf sep excl kf = Inr ds"
    and "map_of staging k = Some r" "c \<notin> fst ` set (cols r)"
  shows "\<not> (\<exists>e\<in>set ds. map_of e kf = Some k \<and> map_of e (S ''type'') = Some (S ''different_value'') \<and>
                map_of e (S ''field'') = Some c)"
proof
  assume "\<exists>e\<in>set ds. map_of e kf = Some k \<and> map_of e (S ''type'') = Some (S ''different_value'') \<and>
                map_of e (S ''field'') = Some c"
  then obtain e where e: "e \<in> set ds" "map_of e kf = Some k"
    "map_of e (S ''type'') = Some (S ''different_value'')" "map_of e (S ''field'') = Some c"
    by blast
  from assms(3) obtain new where
    c: "collect (row_entries cr ign sf sep excl kf production) staging = Inr new"
    and ds: "ds = new @ map (\<lambda>sku. mk_entry kf sku (S ''extra_in_production'') [] [] [])
                       (filter (\<lambda>sku. map_of staging sku = None) (map fst production))"
    by (auto simp: compare_catalogs_collect split: sum.splits)
  from e(1,3) have "e \<in> set new"
    unfolding ds by (auto simp: map_of_mk_entry)
  with collect_Inr_concat[OF c] obtain item ys where
    i: "item \<in> set staging" "row_entries cr ign sf sep excl kf production item = Inr ys" "e \<in> set ys"
    by fastforce
  from row_entries_key[OF i(2) assms(2) i(3)] e(2) have "fst item = k" by simp
  with i(1) assms(1,4) have "snd item = r"
    by (metis map_of_is_SomeI option.inject prod.collapse)
  with row_entries_different_value[OF i(2,3) e(3)] e(4) assms(5) show False by simp
qed

theorem compare_catalogs_staging_columns_only_witness:
  "distinct (map fst [(S ''A'', \<lparr>cols = [(S ''sku'', Some (S ''A''))], rest = []\<rparr>)]) \<and>
   S ''sku'' \<notin> entry_names \<and>
   compare_catalogs (\<lambda>s. s)
     [(S ''A'', \<lparr>cols = [(S ''sku'', Some (S ''A''))], rest = []\<rparr>)]
     [(S ''A'', \<lparr>cols = [(S ''sku'', Some (S ''A'')), (S ''color'', Some (S ''red''))], rest = []\<rparr>)]
     {} (S ''additional_attributes'') (S ''|'') {} (S ''sku'') = Inr [] \<and>
   map_of [(S ''A'', \<lparr>cols = [(S ''sku'', Some (S ''A''))], rest = []\<rparr>)] (S ''A'') =
     Some \<lparr>cols = [(S ''sku'', Some (S ''A''))], rest = []\<rparr> \<and>
   S ''color'' \<notin> fst ` set (cols \<lparr>cols = [(S ''sku'', Some (S ''A''))], rest = []\<rparr>) \<and>
   \<not> (\<exists>e\<in>set ([] :: entry list). map_of e (S ''sku'') = Some (S ''A'') \<and>
          map_of e (S ''type'') = Some (S ''different_value'') \<and>
          map_of e (S ''field'') = Some (S ''color''))"
  using compare_catalogs_staging_columns_only
    [of "[(S ''A'', \<lparr>cols = [(S ''sku'', Some (S ''A''))], rest = []\<rparr>)]" "S ''sku''" "\<lambda>s. s"
        "[(S ''A'', \<lparr>cols = [(S ''sku'', Some (S ''A'')), (S ''color'', Some (S ''red''))], rest = []\<rparr>)]"
        "{}" "S ''additional_attributes''" "S ''|''" "{}" "[]" "S ''A''"
        "\<lparr>cols = [(S ''sku'', Some (S ''A''))], rest = []\<rparr>" "S ''color''"]
  by (simp add: entry_names_def compare_catalogs_def row_falsy_def compare_row_def
        strip_def isspace_def or_empty_def)

lemma filter_collect:
  "collect f xs = Inr zs \<Longrightarrow> filter P zs = concat (map (\<lambda>x. filter P (projr (f x))) xs)"
  by (induction xs arbitrary: zs) (auto split: sum.splits)

lemma concat_map_single_key:
  "distinct (map fst xs) \<Longrightarrow> (k, v) \<in> set xs \<Longrightarrow>
     concat (map (\<lambda>x. if fst x = k then g x else []) xs) = g (k, v)"
proof (induction xs)
  case Nil
  then show ?case by simp
next
  case (Cons a xs)
  show ?case
  proof (cases "a = (k, v)")
    case True
    with Cons.prems have "\<forall>x\<in>set xs. fst x \<noteq> k" by force
    then have "concat (map (\<lambda>x. if fst x = k then g x else []) xs) = []" by simp
    with True show ?thesis by simp
  next
    case False
    with Cons.prems have in_xs: "(k, v) \<in> set xs" by simp
    then have "k \<in> fst ` set xs" by force
    with Cons.prems have "fst a \<noteq> k" by auto
    with Cons in_xs show ?thesis by simp
  qed
qed

lemma diff_additional_attributes_order:
  assumes "diff_additional_attributes cr sv pv sep excl = Inr sd"
    and "parse_additional_attributes cr (Some sv) sep = Inr sa"
    and "parse_additional_attributes cr (Some pv) sep = Inr pa"
  shows "subseq (map fst sd) (union_order sa pa)"
proof -
  have 1: "map fst (map (\<lambda>(k, v). (k, (v, or_empty (map_of pa k))))
               (filter (\<lambda>(k, v). k \<notin> excl \<and> or_empty (map_of pa k) \<noteq> v) sa))
          = map fst (filter (\<lambda>(k, v). k \<notin> excl \<and> or_empty (map_of pa k) \<noteq> v) sa)"
    by (simp add: case_prod_unfold)
  have 2: "map fst (map (\<lambda>(k, v). (k, ([], v :: pstr)))
               (filter (\<lambda>(k, v). k \<notin> excl \<and> map_of sa k = None) pa))
          = filter (\<lambda>k. k \<notin> excl) (filter (\<lambda>k. k \<notin> fst ` set sa) (map fst pa))"
    by (induction pa) (auto simp: map_of_eq_None_iff intro: rev_image_eqI)
  have "map fst sd =
      map fst (filter (\<lambda>(k, v). k \<notin> excl \<and> or_empty (map_of pa k) \<noteq> v) sa)
      @ filter (\<lambda>k. k \<notin> excl) (filter (\<lambda>k. k \<notin> fst ` set sa) (map fst pa))"
    using diff_additional_attributes_eq[OF assms(2,3), of excl] assms(1) 1 2 by simp
  then show ?thesis
    unfolding union_order_def
    by (simp only:) (intro list_emb_append_mono subseq_map subseq_filter_left)
qed


lemma compare_catalogs_blocks:
  assumes "compare_catalogs cr staging production ign sf sep excl kf = Inr ds"
  shows "ds = concat (map (\<lambda>item. projr (row_entries cr ign sf sep excl kf production item)) staging)
              @ map (\<lambda>sku. mk_entry kf sku (S ''extra_in_production'') [] [] [])
                  (filter (\<lambda>sku. sku \<notin> fst ` set staging) (map fst production))"
    and "\<forall>item\<in>set staging. \<exists>ys. row_entries cr ign sf sep excl kf production item = Inr ys"
proof -
  from assms obtain new where
    c: "collect (row_entries cr ign sf sep excl kf production) staging = Inr new"
    and ds: "ds = new @ map (\<lambda>sku. mk_entry kf sku (S ''extra_in_production'') [] [] [])
                       (filter (\<lambda>sku. map_of staging sku = None) (map fst production))"
    by (auto simp: compare_catalogs_collect split: sum.splits)
  from collect_Inr_concat[OF c] ds
  show "ds = concat (map (\<lambda>item. projr (row_entries cr ign sf sep excl kf production item)) staging)
              @ map (\<lambda>sku. mk_entry kf sku (S ''extra_in_production'') [] [] [])
                  (filter (\<lambda>sku. sku \<notin> fst ` set staging) (map fst production))"
    by (simp add: map_of_eq_None_iff)
  from collect_Inr_concat[OF c]
  show "\<forall>item\<in>set staging. \<exists>ys. row_entries cr ign sf sep excl kf production item = Inr ys"
    by simp
qed

lemma field_entries_attribute_filter:
  assumes "field_entries cr ign sf sep excl kf sku pr fv = Inr zs" "sf \<notin> ign"
  shows "filter (\<lambda>e. map_of e (S ''type'') = Some (S ''different_value (additional_attribute)'')) zs
         = (if fst fv = sf then zs else [])"
  using assms
  by (auto simp: field_entries_def Let_def map_of_mk_entry filter_empty_conv
           split: if_splits sum.splits intro!: filter_True)

lemma row_entries_attribute_entries:
  assumes row: "row_entries cr ign sf sep excl kf production (k, r) = Inr ys"
    and pr: "map_of production k = Some pr" "\<not> row_falsy (Some pr)"
    and sf: "sf \<notin> ign" "map_of (cols r) sf = Some v" "distinct (map fst (cols r))"
  shows "\<exists>sd. diff_additional_attributes cr (strip (or_empty v))
                 (strip (or_empty (case map_of (cols pr) sf of None \<Rightarrow> None | Some w \<Rightarrow> w)))
                 sep excl = Inr sd \<and>
              filter (\<lambda>e. map_of e (S ''type'') = Some (S ''different_value (additional_attribute)'')) ys
              = map (\<lambda>(subkey, (stg_subval, prod_subval)).
                       mk_entry kf k (S ''different_value (additional_attribute)'')
                         (sf @ S '':'' @ subkey) stg_subval prod_subval) sd"
proof -
  let ?f = "field_entries cr ign sf sep excl kf k pr"
  let ?P = "\<lambda>e. map_of e (S ''type'') = Some (S ''different_value (additional_attribute)'')"
  from row pr have c: "collect ?f (cols r) = Inr ys"
    by (auto simp: row_entries_def split: sum.splits if_splits)
  note cc = collect_Inr_concat[OF c]
  have mem: "(sf, v) \<in> set (cols r)" using sf(2) by (rule map_of_SomeD)
  have "filter ?P ys = concat (map (\<lambda>fv. filter ?P (projr (?f fv))) (cols r))"
    by (rule filter_collect[OF c])
  also have "map (\<lambda>fv. filter ?P (projr (?f fv))) (cols r)
             = map (\<lambda>fv. if fst fv = sf then projr (?f fv) else []) (cols r)"
  proof (rule map_cong[OF refl])
    fix fv assume "fv \<in> set (cols r)"
    with cc obtain zs where zs: "?f fv = Inr zs" by blast
    from field_entries_attribute_filter[OF zs sf(1)] zs
    show "filter ?P (projr (?f fv)) = (if fst fv = sf then projr (?f fv) else [])" by simp
  qed
  also have "concat \<dots> = projr (?f (sf, v))"
    by (rule concat_map_single_key[OF sf(3) mem])
  finally have eq: "filter ?P ys = projr (?f (sf, v))" .
  from cc mem obtain zs where zs: "?f (sf, v) = Inr zs" by blast
  with sf(1,2) obtain sd where
    "diff_additional_attributes cr (strip (or_empty v))
       (strip (or_empty (case map_of (cols pr) sf of None \<Rightarrow> None | Some w \<Rightarrow> w))) sep excl = Inr sd"
    "zs = map (\<lambda>(subkey, (stg_subval, prod_subval)).
                 mk_entry kf k (S ''different_value (additional_attribute)'')
                   (sf @ S '':'' @ subkey) stg_subval prod_subval) sd"
    by (auto simp: field_entries_def Let_def split: sum.splits)
  with eq zs show ?thesis by simp
qed

lemma diff_additional_attributes_parsed:
  assumes "diff_additional_attributes cr sv pv sep excl = Inr sd"
  shows "\<exists>sa pa. parse_additional_attributes cr (Some sv) sep = Inr sa \<and>
                 parse_additional_attributes cr (Some pv) sep = Inr pa"
  using assms by (auto simp: diff_additional_attributes_def split: sum.splits)

text \<open>
  Claim C7. The sequence that \<open>compare_catalogs\<close> returns is one block of entries per
  staging item, in the order of the staging catalog, each block holding entries of its
  own key only, followed by the \<open>extra_in_production\<close> entries of the production keys
  that staging lacks, in the order of the production catalog. For a key present on
  both sides whose staging record has the special column, the additional-attribute
  entries of that key name their sub-keys in the order of \<open>union_order\<close>: the
  sub-keys of the decoded staging value in their order, then those sub-keys of the
  decoded production value that the staging value lacks, in their order.
\<close>

theorem compare_catalogs_order:
  assumes "distinct (map fst staging)"
    and "list_all (\<lambda>(k, r). distinct (map fst (cols r))) staging"
    and "kf \<notin> entry_names"
    and "compare_catalogs cr staging production ign sf sep excl kf = Inr ds"
  shows "(\<exists>block.
            ds = concat (map block staging)
                 @ map (\<lambda>sku. mk_entry kf sku (S ''extra_in_production'') [] [] [])
                     (filter (\<lambda>sku. sku \<notin> fst ` set staging) (map fst production)) \<and>
            (\<forall>item\<in>set staging. \<forall>e\<in>set (block item). map_of e kf = Some (fst item))) \<and>
         (\<forall>k r pr v.
            map_of staging k = Some r \<and> map_of production k = Some pr \<and> \<not> row_falsy (Some pr) \<and>
            sf \<notin> ign \<and> map_of (cols r) sf = Some v \<longrightarrow>
            (\<exists>sa pa subs.
               parse_additional_attributes cr (Some (strip (or_empty v))) sep = Inr sa \<and>
               parse_additional_attributes cr
                 (Some (strip (or_empty (case map_of (cols pr) sf of None \<Rightarrow> None | Some w \<Rightarrow> w))))
                 sep = Inr pa \<and>
               subseq subs (union_order sa pa) \<and>
               map (\<lambda>e. map_of e (S ''field''))
                 (filter (\<lambda>e. map_of e kf = Some k \<and>
                              map_of e (S ''type'') = Some (S ''different_value (additional_attribute)''))
                    ds)
               = map (\<lambda>sub. Some (sf @ S '':'' @ sub)) subs))"
proof (intro conjI allI impI)
  let ?B = "\<lambda>item. projr (row_entries cr ign sf sep excl kf production item)"
  note blocks = compare_catalogs_blocks[OF assms(4)]
  have "\<forall>item\<in>set staging. \<forall>e\<in>set (?B item). map_of e kf = Some (fst item)"
  proof (intro ballI)
    fix item e assume "item \<in> set staging" "e \<in> set (?B item)"
    with blocks(2) obtain ys where "row_entries cr ign sf sep excl kf production item = Inr ys"
      "e \<in> set ys" by fastforce
    then show "map_of e kf = Some (fst item)" using row_entries_key assms(3) by blast
  qed
  with blocks(1)
  show "\<exists>block.
            ds = concat (map block staging)
                 @ map (\<lambda>sku. mk_entry kf sku (S ''extra_in_production'') [] [] [])
                     (filter (\<lambda>sku. sku \<notin> fst ` set staging) (map fst production)) \<and>
            (\<forall>item\<in>set staging. \<forall>e\<in>set (block item). map_of e kf = Some (fst item))"
    by blast
next
  fix k r pr v
  assume h: "map_of staging k = Some r \<and> map_of production k = Some pr \<and> \<not> row_falsy (Some pr) \<and>
            sf \<notin> ign \<and> map_of (cols r) sf = Some v"
  let ?B = "\<lambda>item. projr (row_entries cr ign sf sep excl kf production item)"
  let ?T = "\<lambda>e. map_of e (S ''type'') = Some (S ''different_value (additional_attribute)'')"
  note blocks = compare_catalogs_blocks[OF assms(4)]
  from h have mem: "(k, r) \<in> set staging" by (auto dest: map_of_SomeD)
  with assms(2) have dr: "distinct (map fst (cols r))" by (auto simp: list_all_iff)
  from blocks(2) mem obtain ys where ys: "row_entries cr ign sf sep excl kf production (k, r) = Inr ys"
    by blast
  from assms(4) obtain new where
    c: "collect (row_entries cr ign sf sep excl kf production) staging = Inr new"
    and ds: "ds = new @ map (\<lambda>sku. mk_entry kf sku (S ''extra_in_production'') [] [] [])
                       (filter (\<lambda>sku. map_of staging sku = None) (map fst production))"
    by (auto simp: compare_catalogs_collect split: sum.splits)
  have "filter (\<lambda>e. map_of e kf = Some k) new = concat (map ?B (filter (\<lambda>item. fst item = k) staging))"
    by (rule filter_collect_key[OF c]) (rule row_entries_key[OF _ assms(3)])
  with distinct_filter_key[OF assms(1) mem] ys
  have 1: "filter (\<lambda>e. map_of e kf = Some k) new = ys" by simp
  have 2: "filter (\<lambda>e. map_of e kf = Some k \<and> ?T e)
             (map (\<lambda>sku. mk_entry kf sku (S ''extra_in_production'') [] [] [])
                (filter (\<lambda>sku. map_of staging sku = None) (map fst production))) = []"
    by (simp add: filter_empty_conv map_of_mk_entry)
  have "filter (\<lambda>e. map_of e kf = Some k \<and> ?T e) new
        = filter ?T (filter (\<lambda>e. map_of e kf = Some k) new)"
    by (simp add: conj_commute)
  with 2 have "filter (\<lambda>e. map_of e kf = Some k \<and> ?T e) ds
        = filter ?T (filter (\<lambda>e. map_of e kf = Some k) new)"
    unfolding ds filter_append by simp
  with 1 have 3: "filter (\<lambda>e. map_of e kf = Some k \<and> ?T e) ds = filter ?T ys" by simp
  from h row_entries_attribute_entries[OF ys _ _ _ _ dr, of pr v]
  obtain sd where sd:
    "diff_additional_attributes cr (strip (or_empty v))
       (strip (or_empty (case map_of (cols pr) sf of None \<Rightarrow> None | Some w \<Rightarrow> w))) sep excl = Inr sd"
    "filter ?T ys = map (\<lambda>(subkey, (stg_subval, prod_subval)).
                       mk_entry kf k (S ''different_value (additional_attribute)'')
                         (sf @ S '':'' @ subkey) stg_subval prod_subval) sd"
    by blast
  from diff_additional_attributes_parsed[OF sd(1)] obtain sa pa where p:
    "parse_additional_attributes cr (Some (strip (or_empty v))) sep = Inr sa"
    "parse_additional_attributes cr
       (Some (strip (or_empty (case map_of (cols pr) sf of None \<Rightarrow> None | Some w \<Rightarrow> w)))) sep = Inr pa"
    by blast
  have "map (\<lambda>e. map_of e (S ''field'')) (filter (\<lambda>e. map_of e kf = Some k \<and> ?T e) ds)
        = map (\<lambda>sub. Some (sf @ S '':'' @ sub)) (map fst sd)"
    unfolding 3 sd(2) by (simp add: case_prod_unfold map_of_mk_entry)
  with p diff_additional_attributes_order[OF sd(1) p]
  show "\<exists>sa pa subs.
               parse_additional_attributes cr (Some (strip (or_empty v))) sep = Inr sa \<and>
               parse_additional_attributes cr
                 (Some (strip (or_empty (case map_of (cols pr) sf of None \<Rightarrow> None | Some w \<Rightarrow> w))))
                 sep = Inr pa \<and>
               subseq subs (union_order sa pa) \<and>
               map (\<lambda>e. map_of e (S ''field''))
                 (filter (\<lambda>e. map_of e kf = Some k \<and>
                              map_of e (S ''type'') = Some (S ''different_value (additional_attribute)''))
                    ds)
               = map (\<lambda>sub. Some (sf @ S '':'' @ sub)) subs"
    by blast
qed

theorem compare_catalogs_order_witness:
  "distinct (map fst [(S ''A1'', \<lparr>cols = [(S ''sku'', Some (S ''A1'')),
                                         (S ''attrs'', Some (S ''size=M|note=ok|x=1''))], rest = []\<rparr>)]) \<and>
   list_all (\<lambda>(k, r). distinct (map fst (cols r)))
     [(S ''A1'', \<lparr>cols = [(S ''sku'', Some (S ''A1'')),
                         (S ''attrs'', Some (S ''size=M|note=ok|x=1''))], rest = []\<rparr>)] \<and>
   S ''sku'' \<notin> entry_names \<and>
   compare_catalogs (\<lambda>s. s)
     [(S ''A1'', \<lparr>cols = [(S ''sku'', Some (S ''A1'')),
                         (S ''attrs'', Some (S ''size=M|note=ok|x=1''))], rest = []\<rparr>)]
     [(S ''B2'', \<lparr>cols = [(S ''sku'', Some (S ''B2''))], rest = []\<rparr>),
      (S ''A1'', \<lparr>cols = [(S ''sku'', Some (S ''A1'')),
                         (S ''attrs'', Some (S ''y=2|note=no|size=M''))], rest = []\<rparr>)]
     {} (S ''attrs'') (S ''|'') {} (S ''sku'') =
   Inr [mk_entry (S ''sku'') (S ''A1'') (S ''different_value (additional_attribute)'')
          (S ''attrs:note'') (S ''ok'') (S ''no''),
        mk_entry (S ''sku'') (S ''A1'') (S ''different_value (additional_attribute)'')
          (S ''attrs:x'') (S ''1'') [],
        mk_entry (S ''sku'') (S ''A1'') (S ''different_value (additional_attribute)'')
          (S ''attrs:y'') [] (S ''2''),
        mk_entry (S ''sku'') (S ''B2'') (S ''extra_in_production'') [] [] []]"
  using compare_catalogs_order
    [of "[(S ''A1'', \<lparr>cols = [(S ''sku'', Some (S ''A1'')),
                         (S ''attrs'', Some (S ''size=M|note=ok|x=1''))], rest = []\<rparr>)]"
        "S ''sku''" "\<lambda>s. s"
        "[(S ''B2'', \<lparr>cols = [(S ''sku'', Some (S ''B2''))], rest = []\<rparr>),
          (S ''A1'', \<lparr>cols = [(S ''sku'', Some (S ''A1'')),
                         (S ''attrs'', Some (S ''y=2|note=no|size=M''))], rest = []\<rparr>)]"
        "{}" "S ''attrs''" "S ''|''" "{}"]
  by (simp add: entry_names_def compare_catalogs_def row_falsy_def compare_row_def
        strip_def isspace_def or_empty_def diff_additional_attributes_def
        parse_additional_attributes_def split_def html_unescape_def strip_quotes_def
        startswith_ch_def endswith_ch_def Let_def)

section \<open>Properties of the record loader\<close>

subsection \<open>The character loop of the protection step\<close>

lemma scan_line_no_quote:
  "dquote \<notin> set f \<Longrightarrow> squote \<notin> set f \<Longrightarrow> (iq \<or> d \<notin> set f) \<Longrightarrow>
   scan_line d (f @ xs) parts cur iq qc = scan_line d xs parts (cur @ f) iq qc"
  by (induction f arbitrary: cur) auto

lemma scan_line_wrapped:
  assumes "dquote \<notin> set v" "squote \<notin> set v" "q = Some dquote \<or> q = Some squote"
  shows "scan_line d (wrap q v @ xs) parts cur False qc =
         scan_line d xs parts (cur @ wrap q v) False [the q]"
proof -
  from assms(3) obtain c where c: "q = Some c" "c = dquote \<or> c = squote" by auto
  have "scan_line d (c # v @ c # xs) parts cur False qc
        = scan_line d (v @ c # xs) parts (cur @ [c]) True [c]"
    using c(2) by auto
  also have "\<dots> = scan_line d (c # xs) parts ((cur @ [c]) @ v) True [c]"
    by (rule scan_line_no_quote) (use assms in auto)
  also have "\<dots> = scan_line d xs parts (cur @ c # v @ [c]) False [c]"
    using c(2) by auto
  finally show ?thesis by (simp add: wrap_def c)
qed

lemma scan_line_field:
  assumes "scan_ok d f"
  shows "\<exists>qc'. scan_line d (f @ xs) parts cur False qc = scan_line d xs parts (cur @ f) False qc'"
proof (cases "dquote \<notin> set f \<and> squote \<notin> set f \<and> d \<notin> set f")
  case True
  then show ?thesis using scan_line_no_quote[of f False d xs parts cur qc] by blast
next
  case False
  with assms obtain q v where "q = Some dquote \<or> q = Some squote" "dquote \<notin> set v"
    "squote \<notin> set v" "f = wrap q v"
    unfolding scan_ok_def by blast
  then show ?thesis using scan_line_wrapped[of v q d xs parts cur qc] by blast
qed

lemma scan_line_join:
  assumes "d \<noteq> dquote" "d \<noteq> squote"
  shows "\<forall>f\<in>set fs. scan_ok d f \<Longrightarrow> fs \<noteq> [] \<Longrightarrow>
         scan_line d (join [d] fs) parts [] False qc = parts @ fs"
proof (induction fs arbitrary: parts qc)
  case Nil
  then show ?case by simp
next
  case (Cons p ps)
  show ?case
  proof (cases ps)
    case Nil
    from Cons.prems obtain qc' where
      "scan_line d (p @ []) parts [] False qc = scan_line d [] parts ([] @ p) False qc'"
      using scan_line_field[of d p "[]" parts "[]" qc] by auto
    with Nil show ?thesis by simp
  next
    case (Cons q qs)
    from Cons.prems obtain qc' where
      "scan_line d (p @ d # join [d] ps) parts [] False qc
       = scan_line d (d # join [d] ps) parts ([] @ p) False qc'"
      using scan_line_field[of d p "d # join [d] ps" parts "[]" qc] by auto
    moreover have "scan_line d (d # join [d] ps) parts p False qc'
       = scan_line d (join [d] ps) (parts @ [p]) [] False qc'"
      using assms by simp
    moreover have "scan_line d (join [d] ps) (parts @ [p]) [] False qc' = (parts @ [p]) @ ps"
      using Cons.IH[of "parts @ [p]" qc'] Cons.prems Cons by simp
    ultimately show ?thesis using Cons by simp
  qed
qed

subsection \<open>Placeholders: protect, then restore\<close>

lemma protect_comma: "protect (44 # t) = PLACEHOLDER_COMMA @ protect t"
  by (simp add: protect_def PLACEHOLDER_COMMA_def section_marker_def)

lemma protect_section: "protect (194 # 167 # t) = PLACEHOLDER_SECTION @ protect t"
  by (simp add: protect_def section_marker_def)

lemma startswith_replace_char:
  "c0 \<noteq> c \<Longrightarrow> new \<noteq> [] \<Longrightarrow> hd new \<noteq> c0 \<Longrightarrow>
   startswith_ch (replace [c] new s) c0 = startswith_ch s c0"
  by (cases s; cases new) (auto simp: startswith_ch_def)

lemma protect_char:
  assumes "c \<noteq> 44" "c \<noteq> 10" "c \<noteq> 13" "\<not> (c = 194 \<and> startswith_ch t 167)"
  shows "protect (c # t) = c # protect t"
proof -
  let ?w = "replace [13] PLACEHOLDER_NEWLINE (replace [10] PLACEHOLDER_NEWLINE
              (replace (S '','') PLACEHOLDER_COMMA t))"
  have sw: "startswith_ch ?w 167 = startswith_ch t 167"
    by (simp add: startswith_replace_char PLACEHOLDER_NEWLINE_def PLACEHOLDER_COMMA_def)
  have "replace section_marker PLACEHOLDER_SECTION (c # ?w)
        = c # replace section_marker PLACEHOLDER_SECTION ?w"
    using assms(4) sw by (cases ?w) (auto simp: section_marker_def startswith_ch_def)
  then show ?thesis using assms(1-3) by (simp add: protect_def)
qed

lemma protect_enc: "10 \<notin> set v \<Longrightarrow> 13 \<notin> set v \<Longrightarrow> protect v = enc v"
proof (induction v rule: enc.induct)
  case 1
  show ?case by (simp add: protect_def)
next
  case (2 c)
  show ?case
  proof (cases "c = 44")
    case True
    then show ?thesis using protect_comma[of "[]"] by (simp add: protect_def)
  next
    case False
    with 2 protect_char[of c "[]"] show ?thesis by (simp add: startswith_ch_def protect_def)
  qed
next
  case (3 c c' cs)
  show ?case
  proof (cases "c = 44")
    case True
    with 3 show ?thesis by (simp add: protect_comma)
  next
    case False
    show ?thesis
    proof (cases "c = 194 \<and> c' = 167")
      case True
      with 3 False show ?thesis by (simp add: protect_section)
    next
      case F2: False
      with 3 False protect_char[of c "c' # cs"] show ?thesis
        by (auto simp: startswith_ch_def)
    qed
  qed
qed

lemma restore_comma: "restore (PLACEHOLDER_COMMA @ t) = 44 # restore t"
  by (simp add: restore_def PLACEHOLDER_COMMA_def PLACEHOLDER_NEWLINE_def
        PLACEHOLDER_SECTION_def section_marker_def)

lemma restore_section: "restore (PLACEHOLDER_SECTION @ t) = 194 # 167 # restore t"
  by (simp add: restore_def PLACEHOLDER_COMMA_def PLACEHOLDER_NEWLINE_def
        PLACEHOLDER_SECTION_def section_marker_def)

lemma restore_char: "c \<noteq> 60 \<Longrightarrow> restore (c # t) = c # restore t"
  by (simp add: restore_def PLACEHOLDER_COMMA_def PLACEHOLDER_NEWLINE_def
        PLACEHOLDER_SECTION_def section_marker_def)

lemma restore_enc: "60 \<notin> set v \<Longrightarrow> restore (enc v) = v"
proof (induction v rule: enc.induct)
  case 1
  show ?case by (simp add: restore_def)
next
  case (2 c)
  then show ?case
    using restore_comma[of "[]"] restore_char[of c "[]"] by (simp add: restore_def)
next
  case (3 c c' cs)
  then show ?case
    by (auto simp: restore_comma restore_section restore_char)
qed

lemma set_enc:
  "set (enc v) \<subseteq> (set v - {44}) \<union> set PLACEHOLDER_COMMA \<union> set PLACEHOLDER_SECTION"
  by (induction v rule: enc.induct) auto

lemma enc_Nil_iff: "enc v = [] \<longleftrightarrow> v = []"
  by (induction v rule: enc.induct) (auto simp: PLACEHOLDER_COMMA_def PLACEHOLDER_SECTION_def)

subsection \<open>The csv reader on lines without quotes\<close>

lemma process_line_field:
  assumes "d \<noteq> dquote" "d \<noteq> 10" "d \<noteq> 13"
  shows "d \<notin> set f \<Longrightarrow> dquote \<notin> set f \<Longrightarrow> 10 \<notin> set f \<Longrightarrow> 13 \<notin> set f \<Longrightarrow>
     length (field p) + length f \<le> field_limit \<Longrightarrow>
     state p = START_FIELD \<and> field p = [] \<or> state p = IN_FIELD \<Longrightarrow>
     process_line d p (f @ d # xs)
       = process_line d \<lparr>state = START_FIELD, saved = saved p @ [field p @ f], field = []\<rparr> xs \<and>
     process_line d p f
       = Inr \<lparr>state = START_RECORD, saved = saved p @ [field p @ f], field = []\<rparr>"
proof (induction f arbitrary: p)
  case Nil
  then show ?case
    using assms
    by (cases p) (auto simp: parse_process_char_def start_field_def is_nl_def after_eol_def
        parse_save_field_def)
next
  case (Cons c f)
  let ?p' = "\<lparr>state = IN_FIELD, saved = saved p, field = field p @ [c]\<rparr>"
  from Cons.prems have c: "c \<noteq> d" "c \<noteq> dquote" "c \<noteq> 10" "c \<noteq> 13"
    and f: "d \<notin> set f" "dquote \<notin> set f" "10 \<notin> set f" "13 \<notin> set f"
    and len: "\<not> field_limit \<le> length (field p)" "length (field ?p') + length f \<le> field_limit"
    by auto
  have step: "parse_process_char d p (Some c) = Inr ?p'"
    using Cons.prems(6) c len(1)
    by (cases p)
       (auto simp: parse_process_char_def start_field_def is_nl_def parse_add_char_def with_state_def)
  from Cons.IH[OF f len(2)] step show ?case by simp
qed

lemma process_line_fields:
  assumes "d \<noteq> dquote" "d \<noteq> 10" "d \<noteq> 13"
  shows "\<forall>f\<in>set fs. csv_plain d f \<Longrightarrow> fs \<noteq> [] \<Longrightarrow>
     process_line d \<lparr>state = START_FIELD, saved = sv, field = []\<rparr> (join [d] fs)
       = Inr \<lparr>state = START_RECORD, saved = sv @ fs, field = []\<rparr>"
proof (induction fs arbitrary: sv)
  case Nil
  then show ?case by simp
next
  case (Cons f fs)
  let ?p = "\<lparr>state = START_FIELD, saved = sv, field = []\<rparr>"
  from Cons.prems have f: "d \<notin> set f" "dquote \<notin> set f" "10 \<notin> set f" "13 \<notin> set f"
    "length (field ?p) + length f \<le> field_limit"
    by (simp_all add: csv_plain_def)
  note pf = process_line_field[OF assms f]
  show ?case
  proof (cases fs)
    case Nil
    with pf show ?thesis by simp
  next
    case (Cons g gs)
    with pf[of "join [d] fs"] Cons.IH[of "sv @ [f]"] Cons.prems show ?thesis by simp
  qed
qed

lemma process_line_start_record:
  assumes "line \<noteq> []" "hd line \<noteq> 10" "hd line \<noteq> 13"
  shows "process_line d parse_reset line
         = process_line d \<lparr>state = START_FIELD, saved = [], field = []\<rparr> line"
  using assms
  by (cases line) (auto simp: parse_process_char_def parse_reset_def is_nl_def)

lemma hd_join_plain:
  assumes "\<forall>f\<in>set fs. csv_plain d f" "join [d] fs \<noteq> []" "d \<noteq> 10" "d \<noteq> 13"
  shows "hd (join [d] fs) \<noteq> 10 \<and> hd (join [d] fs) \<noteq> 13"
proof (cases fs)
  case Nil
  with assms show ?thesis by simp
next
  case (Cons f gs)
  show ?thesis
  proof (cases f)
    case Nil
    with Cons assms show ?thesis by (cases gs) auto
  next
    case (Cons c cs)
    with \<open>fs = f # gs\<close> assms(1) have "c \<noteq> 10" "c \<noteq> 13" by (auto simp: csv_plain_def)
    with Cons \<open>fs = f # gs\<close> show ?thesis by (cases gs) auto
  qed
qed

lemma process_line_record:
  assumes "d \<noteq> dquote" "d \<noteq> 10" "d \<noteq> 13"
    and "\<forall>f\<in>set fs. csv_plain d f" "join [d] fs \<noteq> []"
  shows "process_line d parse_reset (join [d] fs)
         = Inr \<lparr>state = START_RECORD, saved = fs, field = []\<rparr>"
proof -
  from assms(5) have ne: "fs \<noteq> []" by auto
  from hd_join_plain[OF assms(4,5) assms(2,3)] process_line_start_record[OF assms(5)]
  have "process_line d parse_reset (join [d] fs)
         = process_line d \<lparr>state = START_FIELD, saved = [], field = []\<rparr> (join [d] fs)"
    by simp
  with process_line_fields[OF assms(1-3) assms(4) ne, of "[]"] show ?thesis by simp
qed

lemma read_records_plain:
  assumes "d \<noteq> dquote" "d \<noteq> 10" "d \<noteq> 13"
  shows "\<forall>fs\<in>set fss. (\<forall>f\<in>set fs. csv_plain d f) \<and> join [d] fs \<noteq> [] \<Longrightarrow>
         read_records d parse_reset (map (join [d]) fss) = Inr fss"
proof (induction fss)
  case Nil
  show ?case by (simp add: parse_reset_def)
next
  case (Cons fs fss)
  from Cons.prems have "process_line d parse_reset (join [d] fs)
         = Inr \<lparr>state = START_RECORD, saved = fs, field = []\<rparr>"
    using process_line_record[OF assms] by simp
  with Cons show ?case by simp
qed

lemma foldl_update_new:
  "distinct (map fst kvs) \<Longrightarrow> fst ` set kvs \<inter> fst ` set acc = {} \<Longrightarrow>
   foldl (\<lambda>d (k, v). AList.update k v d) acc kvs = acc @ kvs"
proof (induction kvs arbitrary: acc)
  case Nil
  show ?case by simp
next
  case (Cons kv kvs)
  obtain k v where kv: "kv = (k, v)" by (cases kv)
  from Cons.prems have "k \<notin> fst ` set acc" by (auto simp: kv)
  then have u: "AList.update k v acc = acc @ [(k, v)]" by (rule update_new)
  from Cons.prems have "fst ` set kvs \<inter> fst ` set (acc @ [(k, v)]) = {}"
    by (auto simp: kv)
  with Cons.IH[of "acc @ [(k, v)]"] Cons.prems u show ?case by (simp add: kv)
qed

lemma dict_row_record_of:
  assumes "distinct names" "length vals = length names"
  shows "dict_row names vals = record_of names vals"
proof -
  have "distinct (map fst (zip names (map Some vals)))"
    using assms by (simp add: map_fst_zip)
  from foldl_update_new[OF this, of "[]"] assms(2) show ?thesis
    by (simp add: dict_row_def record_of_def)
qed

lemma load_rows_step:
  "load_rows sf kf (r # rows) data =
     (case stored_key sf kf r of
        None \<Rightarrow> load_rows sf kf rows data
      | Some k \<Rightarrow> load_rows sf kf rows (AList.update k (restored sf r) data))"
  by (simp add: stored_key_def restored_def Let_def split: option.splits)

lemma load_rows_lookup:
  "map_of (load_rows sf kf rows data) key =
     (case filter (\<lambda>r. stored_key sf kf r = Some key) rows of
        [] \<Rightarrow> map_of data key
      | r # rs \<Rightarrow> Some (restored sf (last (r # rs))))"
proof (induction rows arbitrary: data)
  case Nil
  show ?case by simp
next
  case (Cons r rows)
  show ?case
    unfolding load_rows_step
    by (cases "stored_key sf kf r")
       (auto simp: Cons.IH update_conv' split: list.splits)
qed

subsection \<open>Header, rows and records\<close>

lemma split_aux_no_sep:
  "d \<notin> set f \<Longrightarrow> split_aux [d] cur (f @ xs) = split_aux [d] (rev f @ cur) xs"
  by (induction f arbitrary: cur) auto

lemma split_join_char:
  "\<forall>f\<in>set fs. d \<notin> set f \<Longrightarrow> fs \<noteq> [] \<Longrightarrow> split_aux [d] [] (join [d] fs) = fs"
proof (induction fs)
  case Nil
  then show ?case by simp
next
  case (Cons f fs)
  show ?case
  proof (cases fs)
    case Nil
    with Cons.prems split_aux_no_sep[of d f "[]" "[]"] show ?thesis by simp
  next
    case (Cons g gs)
    with Cons.prems Cons.IH split_aux_no_sep[of d f "[]" "d # join [d] fs"] show ?thesis by simp
  qed
qed

lemma index_of_nth: "distinct xs \<Longrightarrow> j < length xs \<Longrightarrow> index_of xs (xs ! j) = Some j"
proof (induction xs arbitrary: j)
  case Nil
  then show ?case by simp
next
  case (Cons x xs)
  then show ?case by (cases j) auto
qed

lemma join_nonempty:
  assumes "2 \<le> length fs"
  shows "join [d] fs \<noteq> []"
proof (cases fs)
  case Nil
  with assms show ?thesis by simp
next
  case (Cons f gs)
  with assms show ?thesis by (cases gs) auto
qed

lemma update_zip:
  "distinct names \<Longrightarrow> j < length names \<Longrightarrow> length ys = length names \<Longrightarrow>
   AList.update (names ! j) x (zip names ys) = zip names (ys[j := x])"
proof (induction names arbitrary: j ys)
  case Nil
  then show ?case by simp
next
  case (Cons n names)
  then obtain y ys' where ys: "ys = y # ys'" by (cases ys) auto
  with Cons show ?case by (cases j) auto
qed

lemma strip_quotes_wrap:
  assumes "dquote \<notin> set v" "squote \<notin> set v" "q = None \<or> q = Some dquote \<or> q = Some squote"
  shows "strip_quotes (wrap q v) = v"
proof (cases q)
  case None
  have "\<not> startswith_ch v dquote" "\<not> startswith_ch v squote"
    using assms(1,2) by (cases v; auto simp: startswith_ch_def)+
  with None show ?thesis by (simp add: wrap_def strip_quotes_def)
next
  case (Some c)
  with assms(3) have "c = dquote \<or> c = squote" by simp
  then show ?thesis
    by (auto simp: Some wrap_def strip_quotes_def startswith_ch_def endswith_ch_def butlast_append)
qed

lemma delimiter_okD:
  assumes "delimiter_ok d"
  shows "d \<noteq> dquote" "d \<noteq> squote" "d \<noteq> 10" "d \<noteq> 13"
    "d \<notin> set PLACEHOLDER_COMMA" "d \<notin> set PLACEHOLDER_SECTION"
  using assms by (auto simp: delimiter_ok_def PLACEHOLDER_COMMA_def PLACEHOLDER_SECTION_def)

lemma replace_special_fields_row:
  assumes d: "delimiter_ok d" and r: "row_ok d n j r" and j: "j < n"
  shows "replace_special_fields d (Some j) (doc_line d j r) = join [d] ((snd r)[j := enc (snd r ! j)])"
proof -
  obtain q vals where qv: "r = (q, vals)" by (cases r)
  let ?v = "vals ! j"
  let ?parts = "vals[j := wrap q ?v]"
  from r have len: "length vals = n" and ft: "free_text_ok d ?v"
    and q: "q = None \<or> q = Some dquote \<or> q = Some squote"
    and bare: "q = None \<Longrightarrow> d \<notin> set ?v"
    and pl: "\<And>i. i < n \<Longrightarrow> i \<noteq> j \<Longrightarrow> plain d (vals ! i)"
    by (auto simp: row_ok_def qv)
  from ft have nq: "dquote \<notin> set ?v" "squote \<notin> set ?v" and nl: "10 \<notin> set ?v" "13 \<notin> set ?v"
    by (auto simp: free_text_ok_def)
  have ok: "\<forall>f\<in>set ?parts. scan_ok d f"
  proof
    fix f assume "f \<in> set ?parts"
    then obtain i where i: "i < n" "f = ?parts ! i" using len by (auto simp: in_set_conv_nth)
    show "scan_ok d f"
    proof (cases "i = j")
      case True
      with i len j have f: "f = wrap q ?v" by simp
      show ?thesis
      proof (cases q)
        case None
        with f bare nq show ?thesis by (simp add: scan_ok_def wrap_def)
      next
        case (Some c)
        with f q nq show ?thesis unfolding scan_ok_def by blast
      qed
    next
      case False
      with i len pl[of i] show ?thesis by (simp add: scan_ok_def plain_def)
    qed
  qed
  have ne: "?parts \<noteq> []" using len j by auto
  have scan: "scan_line d (doc_line d j r) [] [] False [] = ?parts"
    using scan_line_join[OF delimiter_okD(1,2)[OF d] ok ne, of "[]" "[]"]
    by (simp add: doc_line_def qv)
  have "protect (strip_quotes (?parts ! j)) = enc ?v"
    using len j strip_quotes_wrap[OF nq q] protect_enc[OF nl] by simp
  with scan len j show ?thesis
    by (simp add: replace_special_fields_def qv)
qed

lemma enc_row_csv_plain:
  assumes d: "delimiter_ok d" and r: "row_ok d n j r" and j: "j < n"
  shows "\<forall>f\<in>set ((snd r)[j := enc (snd r ! j)]). csv_plain d f"
proof
  obtain q vals where qv: "r = (q, vals)" by (cases r)
  let ?v = "vals ! j"
  fix f assume "f \<in> set ((snd r)[j := enc (snd r ! j)])"
  then obtain i where i: "i < n" "f = (vals[j := enc ?v]) ! i"
    using r by (auto simp: in_set_conv_nth row_ok_def qv)
  from r have len: "length vals = n" and ft: "free_text_ok d ?v"
    and pl: "\<And>i. i < n \<Longrightarrow> i \<noteq> j \<Longrightarrow> plain d (vals ! i)"
    by (auto simp: row_ok_def qv)
  show "csv_plain d f"
  proof (cases "i = j")
    case True
    with i len j have f: "f = enc ?v" by simp
    have "set (enc ?v) \<subseteq> (set ?v - {44}) \<union> set PLACEHOLDER_COMMA \<union> set PLACEHOLDER_SECTION"
      by (rule set_enc)
    moreover have "d \<notin> (set ?v - {44}) \<union> set PLACEHOLDER_COMMA \<union> set PLACEHOLDER_SECTION"
      using ft delimiter_okD(5,6)[OF d] by (auto simp: free_text_ok_def)
    moreover have "length (enc ?v) \<le> field_limit"
      using ft by (simp add: free_text_ok_def)
    moreover have "dquote \<notin> (set ?v - {44}) \<union> set PLACEHOLDER_COMMA \<union> set PLACEHOLDER_SECTION"
      "10 \<notin> (set ?v - {44}) \<union> set PLACEHOLDER_COMMA \<union> set PLACEHOLDER_SECTION"
      "13 \<notin> (set ?v - {44}) \<union> set PLACEHOLDER_COMMA \<union> set PLACEHOLDER_SECTION"
      using ft by (auto simp: free_text_ok_def PLACEHOLDER_COMMA_def PLACEHOLDER_SECTION_def)
    ultimately show ?thesis unfolding f csv_plain_def by blast
  next
    case False
    with i len pl[of i] show ?thesis by (simp add: csv_plain_def plain_def)
  qed
qed

lemma restored_row:
  assumes "distinct names" "j < length names" "length vals = length names" "60 \<notin> set (vals ! j)"
  shows "restored (names ! j) (record_of names (vals[j := enc (vals ! j)])) = record_of names vals"
proof -
  let ?ys = "map Some (vals[j := enc (vals ! j)])"
  have m: "map_of (zip names ?ys) (names ! j) = Some (Some (enc (vals ! j)))"
    using assms map_of_zip_nth[of names ?ys j] by simp
  show ?thesis
  proof (cases "vals ! j = []")
    case True
    then have "vals[j := enc (vals ! j)] = vals" by (metis enc.simps(1) list_update_id)
    with m True show ?thesis by (simp add: restored_def record_of_def)
  next
    case False
    then have ne: "enc (vals ! j) \<noteq> []" by (simp add: enc_Nil_iff)
    have "AList.update (names ! j) (Some (vals ! j)) (zip names ?ys) = zip names (?ys[j := Some (vals ! j)])"
      using assms by (intro update_zip) simp_all
    also have "?ys[j := Some (vals ! j)] = map Some vals"
      by (simp add: map_update[symmetric] del: map_update)
    finally show ?thesis
      using m ne restore_enc[OF assms(4)] by (simp add: restored_def record_of_def)
  qed
qed

lemma stored_key_row:
  assumes "distinct names" "i < length names" "j < length names" "length vals = length names"
    "i \<noteq> j" "60 \<notin> set (vals ! j)"
  shows "stored_key (names ! j) (names ! i) (record_of names (vals[j := enc (vals ! j)]))
         = (if vals ! i = [] then None else Some (strip (vals ! i)))"
proof -
  have "map_of (zip names (map Some (vals[j := enc (vals ! j)]))) (names ! i) = Some (Some (vals ! i))"
    using assms map_of_zip_nth[of names "map Some (vals[j := enc (vals ! j)])" i] by simp
  moreover have "map_of (zip names (map Some vals)) (names ! i) = Some (Some (vals ! i))"
    using assms map_of_zip_nth[of names "map Some vals" i] by simp
  ultimately show ?thesis
    using restored_row[OF assms(1,3,4,6)] by (simp add: stored_key_def record_of_def)
qed

subsection \<open>Loading a document\<close>

text \<open>
  A sufficient condition for a document to load as written. Take a document whose
  first line is a header of at least two distinct plain column names, among them the
  free-text column and, elsewhere, the key column, and whose other lines are rows of
  exactly as many values, where every value but the free-text one is plain (no
  delimiter, no quote character, no line end, at most \<open>field_limit\<close> characters) and
  the free-text value holds no quote character, no line end and no \<open><\<close>, stands bare
  or inside one pair of quotes, holds the delimiter only if the delimiter is a comma
  and the value is quoted, and stays within \<open>field_limit\<close> characters once its commas
  and section markers are replaced by placeholders; the delimiter is none of the
  characters of the placeholders, no quote and no line end. Then \<open>load_csv\<close> returns a
  catalog in which a key maps to the record of the last row that has this key (trimmed,
  the raw key not empty), and this record has exactly the header's columns with the
  row's values as written, the free-text value with its literal commas and section
  markers; keys of no such row are absent. Values with quote characters inside are
  outside this condition; \<open>load_csv_quoted_values\<close> below evaluates three of them.
\<close>

lemma load_csv_round_trip:
  assumes lines: "splitlines content = join [d] names # map (doc_line d j) rows"
    and d: "delimiter_ok d"
    and names: "distinct names" "\<forall>nm\<in>set names. plain d nm"
    and idx: "j < length names" "names ! j = sf" "i < length names" "names ! i = kf" "i \<noteq> j"
    and rows: "\<forall>r\<in>set rows. row_ok d (length names) j r"
  shows "\<exists>cat. load_csv content d sf kf = Inr cat \<and>
           (\<forall>key. map_of cat key =
              (case filter (\<lambda>r. snd r ! i \<noteq> [] \<and> strip (snd r ! i) = key) rows of
                 [] \<Rightarrow> None
               | r # rs \<Rightarrow> Some (record_of names (snd (last (r # rs))))))"
proof -
  let ?n = "length names"
  let ?e = "\<lambda>r. (snd r)[j := enc (snd r ! j)]"
  note dk = delimiter_okD[OF d]
  have n2: "2 \<le> ?n" using idx by linarith
  have hsplit: "split (join [d] names) [d] = names"
    unfolding split_def using names(2) n2
    by (intro split_join_char) (auto simp: plain_def)
  have sidx: "index_of names sf = Some j"
    using index_of_nth[OF names(1) idx(1)] idx(2) by simp
  have proc: "map (replace_special_fields d (Some j)) (map (doc_line d j) rows)
              = map (join [d]) (map ?e rows)"
    using rows replace_special_fields_row[OF d _ idx(1)] by simp
  have plain_all: "\<forall>fs\<in>set (names # map ?e rows). (\<forall>f\<in>set fs. csv_plain d f) \<and> join [d] fs \<noteq> []"
  proof
    fix fs assume "fs \<in> set (names # map ?e rows)"
    then consider "fs = names" | r where "r \<in> set rows" "fs = ?e r" by auto
    then show "(\<forall>f\<in>set fs. csv_plain d f) \<and> join [d] fs \<noteq> []"
    proof cases
      case 1
      with names(2) join_nonempty[OF n2, of d] show ?thesis
        by (auto simp: csv_plain_def plain_def)
    next
      case 2
      with rows have ok: "row_ok d ?n j r" by blast
      then have "length fs = ?n" using 2 by (simp add: row_ok_def)
      then have "join [d] fs \<noteq> []" using n2 by (intro join_nonempty) simp
      with enc_row_csv_plain[OF d ok idx(1)] 2 show ?thesis by simp
    qed
  qed
  have recs: "read_records d parse_reset
                (join [d] names # map (replace_special_fields d (Some j)) (map (doc_line d j) rows))
              = Inr (names # map ?e rows)"
  proof -
    have "join [d] names # map (replace_special_fields d (Some j)) (map (doc_line d j) rows)
          = map (join [d]) (names # map ?e rows)"
      unfolding proc by simp
    then show ?thesis
      using read_records_plain[OF dk(1,3,4) plain_all] by (simp only:)
  qed
  have nonempty: "filter (\<lambda>r. r \<noteq> []) (map ?e rows) = map ?e rows"
  proof (rule filter_True, rule ballI)
    fix fs assume "fs \<in> set (map ?e rows)"
    with rows have "length fs = ?n" by (auto simp: row_ok_def)
    with n2 show "fs \<noteq> []" by auto
  qed
  have drow: "map (dict_row names) (map ?e rows) = map (\<lambda>r. record_of names (?e r)) rows"
    using rows names(1) by (auto simp: row_ok_def intro!: dict_row_record_of)
  let ?cat = "load_rows sf kf (map (\<lambda>r. record_of names (?e r)) rows) []"
  have load: "load_csv content d sf kf = Inr ?cat"
    by (simp add: load_csv_def lines hsplit sidx Let_def recs nonempty drow del: read_records.simps map_map)
  have sk: "stored_key sf kf (record_of names (?e r))
            = (if snd r ! i = [] then None else Some (strip (snd r ! i)))"
    if "r \<in> set rows" for r
    using that rows stored_key_row[OF names(1) idx(3) idx(1) _ idx(5), of "snd r"] idx(2,4)
    by (auto simp: row_ok_def free_text_ok_def)
  have rs: "restored sf (record_of names (?e r)) = record_of names (snd r)" if "r \<in> set rows" for r
    using that rows restored_row[OF names(1) idx(1), of "snd r"] idx(2)
    by (auto simp: row_ok_def free_text_ok_def)
  have look: "map_of ?cat key =
              (case filter (\<lambda>r. snd r ! i \<noteq> [] \<and> strip (snd r ! i) = key) rows of
                 [] \<Rightarrow> None
               | r # rs \<Rightarrow> Some (record_of names (snd (last (r # rs)))))" for key
  proof -
    let ?P = "\<lambda>r. snd r ! i \<noteq> [] \<and> strip (snd r ! i) = key"
    have f: "filter (\<lambda>r. stored_key sf kf r = Some key) (map (\<lambda>r. record_of names (?e r)) rows)
             = map (\<lambda>r. record_of names (?e r)) (filter ?P rows)"
      unfolding filter_map o_def
      by (rule arg_cong[where f = "map _"], rule filter_cong[OF refl]) (auto simp: sk)
    show ?thesis
    proof (cases "filter ?P rows")
      case Nil
      with f show ?thesis by (simp add: load_rows_lookup)
    next
      case (Cons r rs')
      let ?g = "\<lambda>r. record_of names (?e r)"
      have "last (r # rs') \<in> set (r # rs')" by (rule last_in_set) simp
      also have "set (r # rs') = set (filter ?P rows)" using Cons by simp
      finally have mem: "last (r # rs') \<in> set rows" by simp
      have "map_of ?cat key = Some (restored sf (last (map ?g (r # rs'))))"
        using f Cons by (simp add: load_rows_lookup del: last.simps)
      also have "last (map ?g (r # rs')) = ?g (last (r # rs'))"
        by (rule last_map) simp
      also have "restored sf (?g (last (r # rs'))) = record_of names (snd (last (r # rs')))"
        using mem by (rule rs)
      finally show ?thesis using Cons by (simp del: last.simps)
    qed
  qed
  from load look show ?thesis by blast
qed

lemma load_csv_round_trip_example:
  "\<exists>cat. load_csv (S ''sku,attrs'' @ [10] @ S ''A1,\"a,b'' @ [194, 167] @ S ''c\"'' @ [10] @ S ''B2,x'')
            44 (S ''attrs'') (S ''sku'') = Inr cat \<and>
         map_of cat (S ''A1'') =
           Some (record_of [S ''sku'', S ''attrs''] [S ''A1'', S ''a,b'' @ [194, 167] @ S ''c'']) \<and>
         map_of cat (S ''B2'') = Some (record_of [S ''sku'', S ''attrs''] [S ''B2'', S ''x'']) \<and>
         map_of cat (S ''C3'') = None"
proof -
  let ?rows = "[(Some dquote, [S ''A1'', S ''a,b'' @ [194, 167] @ S ''c'']), (None, [S ''B2'', S ''x''])]"
  have h1: "splitlines (S ''sku,attrs'' @ [10] @ S ''A1,\"a,b'' @ [194, 167] @ S ''c\"'' @ [10] @ S ''B2,x'')
     = join [44] [S ''sku'', S ''attrs''] # map (doc_line 44 1) ?rows"
    by (simp add: splitlines_def is_linebreak_def doc_line_def wrap_def)
  have h2: "delimiter_ok 44" by (simp add: delimiter_ok_def)
  have h3: "distinct [S ''sku'', S ''attrs'']" by simp
  have h4: "\<forall>nm\<in>set [S ''sku'', S ''attrs'']. plain 44 nm"
    by (simp add: plain_def field_limit_def)
  have h5: "(1::nat) < length [S ''sku'', S ''attrs'']" "[S ''sku'', S ''attrs''] ! 1 = S ''attrs''"
    "(0::nat) < length [S ''sku'', S ''attrs'']" "[S ''sku'', S ''attrs''] ! 0 = S ''sku''" "(0::nat) \<noteq> 1"
    by simp_all
  have h6: "\<forall>r\<in>set ?rows. row_ok 44 (length [S ''sku'', S ''attrs'']) 1 r"
    by (simp add: row_ok_def free_text_ok_def plain_def less_Suc_eq numeral_2_eq_2
          field_limit_def PLACEHOLDER_COMMA_def PLACEHOLDER_SECTION_def)
  from load_csv_round_trip[OF h1 h2 h3 h4 h5 h6] obtain cat where
    c: "load_csv (S ''sku,attrs'' @ [10] @ S ''A1,\"a,b'' @ [194, 167] @ S ''c\"'' @ [10] @ S ''B2,x'')
          44 (S ''attrs'') (S ''sku'') = Inr cat"
    and l: "\<And>key. map_of cat key =
              (case filter (\<lambda>r. snd r ! 0 \<noteq> [] \<and> strip (snd r ! 0) = key) ?rows of
                 [] \<Rightarrow> None
               | r # rs \<Rightarrow> Some (record_of [S ''sku'', S ''attrs''] (snd (last (r # rs)))))"
    by blast
  have "map_of cat (S ''A1'') =
           Some (record_of [S ''sku'', S ''attrs''] [S ''A1'', S ''a,b'' @ [194, 167] @ S ''c''])"
    "map_of cat (S ''B2'') = Some (record_of [S ''sku'', S ''attrs''] [S ''B2'', S ''x''])"
    "map_of cat (S ''C3'') = None"
    unfolding l by (simp_all add: strip_def isspace_def)
  with c show ?thesis by blast
qed

text \<open>
  Quote characters inside the free-text value. A value in double quotes that holds an
  apostrophe and a comma, and a value in single quotes that holds double quotes and a
  comma, are stored as written between their outer quotes. A value in double quotes
  that holds doubled double quotes is stored with the quotes still doubled: the
  protection step strips the outer quotes, so the csv reader takes the field as
  unquoted.
\<close>

lemma load_csv_quoted_values:
  "load_csv (S ''sku,attrs'' @ [10] @ S ''A1,\"it'' @ [39] @ S ''s, ok\"'') 44
     (S ''attrs'') (S ''sku'') =
     Inr [(S ''A1'', \<lparr>cols = [(S ''sku'', Some (S ''A1'')),
                               (S ''attrs'', Some (S ''it'' @ [39] @ S ''s, ok''))],
                      rest = []\<rparr>)] \<and>
   load_csv (S ''sku,attrs'' @ [10] @ S ''A1,'' @ [39] @ S ''say \"hi\", ok'' @ [39]) 44
     (S ''attrs'') (S ''sku'') =
     Inr [(S ''A1'', \<lparr>cols = [(S ''sku'', Some (S ''A1'')),
                               (S ''attrs'', Some (S ''say \"hi\", ok''))],
                      rest = []\<rparr>)] \<and>
   load_csv (S ''sku,attrs'' @ [10] @ S ''A1,\"say \"\"hi\"\", ok\"'') 44
     (S ''attrs'') (S ''sku'') =
     Inr [(S ''A1'', \<lparr>cols = [(S ''sku'', Some (S ''A1'')),
                               (S ''attrs'', Some (S ''say \"\"hi\"\", ok''))],
                      rest = []\<rparr>)]"
  by (simp add: load_eval)

text \<open>
  Claim C1, at the input where the code leaves it: the free-text value of row \<open>A1\<close>
  is quoted and holds a line feed between \<open>line1\<close> and \<open>line2\<close>. The protection
  step would replace the line feed by its placeholder and the restore step would put
  it back, but \<open>splitlines\<close> has cut the document at every line end before either
  runs: the row reaches the csv reader as two lines without a line end between them,
  and the value stored for \<open>A1\<close> is \<open>line1line2\<close>. The same happens with a carriage
  return in place of the line feed.
\<close>

theorem load_csv_newline_lost:
  "load_csv (S ''sku,attrs'' @ [10] @ S ''A1,\"line1'' @ [10] @ S ''line2\"'') 44
     (S ''attrs'') (S ''sku'') =
     Inr [(S ''A1'', \<lparr>cols = [(S ''sku'', Some (S ''A1'')), (S ''attrs'', Some (S ''line1line2''))],
                      rest = []\<rparr>)] \<and>
   S ''line1line2'' \<noteq> S ''line1'' @ [10] @ S ''line2'' \<and>
   load_csv (S ''sku,attrs'' @ [10] @ S ''A1,\"line1'' @ [13] @ S ''line2\"'') 44
     (S ''attrs'') (S ''sku'') =
     Inr [(S ''A1'', \<lparr>cols = [(S ''sku'', Some (S ''A1'')), (S ''attrs'', Some (S ''line1line2''))],
                      rest = []\<rparr>)]"
  by (simp add: load_eval)

text \<open>
  Every key of a loaded catalog comes from a row whose key-column value, as the csv
  reader gave it, was present and not empty.
\<close>

lemma load_rows_keys:
  assumes "map_of (load_rows sf kf rows []) key = Some r"
  shows "\<exists>r'\<in>set rows. \<exists>k. map_of (cols r') kf = Some (Some k) \<and> k \<noteq> [] \<and>
           stored_key sf kf r' = Some key"
proof -
  from assms have "filter (\<lambda>r. stored_key sf kf r = Some key) rows \<noteq> []"
    by (auto simp: load_rows_lookup)
  then obtain r' where "r' \<in> set rows" "stored_key sf kf r' = Some key"
    by (auto simp: filter_empty_conv)
  then show ?thesis
    by (auto simp: stored_key_def split: option.splits if_splits)
qed

text \<open>
  Claim C5, at the input where the code leaves it: the key column of the only row
  holds one space. The row is not skipped, since the raw value is not empty; it is
  stored under its trimmed key, the empty string; and compared with an empty
  production catalog it yields a diff entry.
\<close>

theorem load_csv_blank_key_stored:
  "load_csv (S ''sku,name'' @ [10] @ S '' ,x'') 44 (S ''additional_attributes'') (S ''sku'') =
     Inr [([], \<lparr>cols = [(S ''sku'', Some (S '' '')), (S ''name'', Some (S ''x''))], rest = []\<rparr>)] \<and>
   compare_catalogs (\<lambda>s. s)
     [([], \<lparr>cols = [(S ''sku'', Some (S '' '')), (S ''name'', Some (S ''x''))], rest = []\<rparr>)] []
     {} (S ''additional_attributes'') section_marker {} (S ''sku'') =
     Inr [mk_entry (S ''sku'') [] (S ''missing_in_production'') [] [] []]"
  by (simp add: load_eval compare_catalogs_def row_falsy_def)

section \<open>Properties of the report writer\<close>

lemma is_html_field_iff:
  "is_html_field html_fields fld \<longleftrightarrow>
     (\<exists>h\<in>set html_fields. fld = h \<or> (\<exists>sub. fld = h @ S '':'' @ sub))"
  by (auto simp: is_html_field_def list_ex_iff prefix_def)

lemma render_diff_mk_entry:
  "render_diff html_fields (mk_entry kf sku t f s p) =
     Inr (if t = S ''missing_in_production'' then S ''missing_in_production''
          else if t = S ''extra_in_production'' then S ''extra_in_production''
          else if is_html_field html_fields f then render_value f (html_escape s) (html_escape p)
          else render_value f s p)"
  by (simp add: render_diff_def getitem_def map_of_mk_entry)

lemma append_diff_present:
  assumes "distinct (map fst g)" "k \<in> fst ` set g"
  shows "append_diff k t g = map (\<lambda>(k', (ds, w)). (k', (if k' = k then ds @ [t] else ds, w))) g"
  using assms
proof (induction g)
  case Nil
  then show ?case by simp
next
  case (Cons a g)
  obtain k' ds w where a: "a = (k', (ds, w))" by (cases a) auto
  show ?case
  proof (cases "k' = k")
    case True
    with Cons.prems have "k \<notin> fst ` set g" by (auto simp: a)
    then have "map (\<lambda>(k', (ds, w)). (k', (if k' = k then ds @ [t] else ds, w))) g = g"
      by (induction g) auto
    with True show ?thesis by (simp add: a append_diff_def)
  next
    case False
    with Cons.prems have kin: "k \<in> fst ` set g" and d: "distinct (map fst g)" by (auto simp: a)
    then obtain ds0 w0 where m: "map_of g k = Some (ds0, w0)"
      by (metis map_of_eq_None_iff not_None_eq surj_pair)
    from Cons.IH[OF d kin] m False show ?thesis
      by (simp add: a append_diff_def)
  qed
qed

lemma set_first_seen: "set (first_seen xs) = set xs"
  by (induction xs rule: first_seen.induct) auto

lemma group_diffs_eq:
  assumes "\<forall>e\<in>set diffs. (\<exists>k. map_of e kf = Some k) \<and> (\<exists>t. render_diff html e = Inr t)"
    and "distinct (map fst g)"
  shows "group_diffs html kf diffs g =
     Inr (map (\<lambda>(k, (ds, w)). (k, (ds @ descriptions html kf diffs k, w))) g
          @ map (\<lambda>k. (k, (descriptions html kf diffs k, Some [])))
              (first_seen (filter (\<lambda>k. k \<notin> fst ` set g) (map (\<lambda>e. the (map_of e kf)) diffs))))"
  using assms
proof (induction diffs arbitrary: g)
  case Nil
  show ?case by (simp add: descriptions_def case_prod_unfold)
next
  case (Cons e diffs)
  let ?K = "map (\<lambda>e. the (map_of e kf)) diffs"
  from Cons.prems(1) obtain k t where k: "map_of e kf = Some k" and t: "render_diff html e = Inr t"
    by auto
  have others: "\<forall>e\<in>set diffs. (\<exists>k. map_of e kf = Some k) \<and> (\<exists>t. render_diff html e = Inr t)"
    using Cons.prems(1) by simp
  have desc: "descriptions html kf (e # diffs) k' = (if k' = k then [t] else []) @ descriptions html kf diffs k'"
    for k' using k t by (auto simp: descriptions_def)
  show ?case
  proof (cases "k \<in> fst ` set g")
    case True
    then obtain ds0 w0 where mg: "map_of g k = Some (ds0, w0)"
      by (metis map_of_eq_None_iff not_None_eq surj_pair)
    let ?g2 = "map (\<lambda>(k', (ds, w)). (k', (if k' = k then ds @ [t] else ds, w))) g"
    have g2: "append_diff k t g = ?g2" by (rule append_diff_present[OF Cons.prems(2) True])
    have keys: "map fst ?g2 = map fst g" by (simp add: case_prod_unfold)
    have d2: "distinct (map fst ?g2)" using Cons.prems(2) by (simp only: keys)
    have img: "fst ` set ?g2 = fst ` set g"
      using arg_cong[OF keys, of set] by (simp only: set_map)
    have step: "group_diffs html kf (e # diffs) g = group_diffs html kf diffs ?g2"
      using k t mg g2 by (simp add: getitem_def Let_def)
    have ih: "group_diffs html kf diffs ?g2 =
       Inr (map (\<lambda>(k, (ds, w)). (k, (ds @ descriptions html kf diffs k, w))) ?g2
          @ map (\<lambda>k. (k, (descriptions html kf diffs k, Some [])))
              (first_seen (filter (\<lambda>k. k \<notin> fst ` set ?g2) ?K)))"
      by (rule Cons.IH[OF others d2])
    have old: "map (\<lambda>(k, (ds, w)). (k, (ds @ descriptions html kf diffs k, w))) ?g2
             = map (\<lambda>(k, (ds, w)). (k, (ds @ descriptions html kf (e # diffs) k, w))) g"
      by (simp add: desc case_prod_unfold)
    have new: "map (\<lambda>k'. (k', (descriptions html kf diffs k', Some [])))
                 (first_seen (filter (\<lambda>k. k \<notin> fst ` set g) ?K))
             = map (\<lambda>k'. (k', (descriptions html kf (e # diffs) k', Some [])))
                 (first_seen (filter (\<lambda>k. k \<notin> fst ` set g) ?K))"
    proof (rule map_cong[OF refl])
      fix k' assume "k' \<in> set (first_seen (filter (\<lambda>k. k \<notin> fst ` set g) ?K))"
      then have "k' \<noteq> k" using True by (auto simp: set_first_seen)
      then show "(k', (descriptions html kf diffs k', Some []))
                 = (k', (descriptions html kf (e # diffs) k', Some []))"
        by (simp add: desc)
    qed
    have flt: "filter (\<lambda>k. k \<notin> fst ` set g) (map (\<lambda>e. the (map_of e kf)) (e # diffs))
               = filter (\<lambda>k. k \<notin> fst ` set g) ?K"
      using True k by simp
    show ?thesis
      unfolding step ih img old new flt ..
  next
    case False
    then have mg: "map_of g k = None" by (simp add: map_of_eq_None_iff)
    let ?g1 = "g @ [(k, ([], Some []))]"
    let ?g2 = "g @ [(k, ([t], Some []))]"
    have g1: "AList.update k ([], Some []) g = ?g1" by (rule update_new[OF False])
    have m1: "map_of ?g1 k = Some ([], Some [])" using mg by (simp add: map_add_def)
    have "AList.update k ([] @ [t], Some []) ?g1 = ?g2"
      using False by (induction g) auto
    with m1 have a2: "append_diff k t ?g1 = ?g2" by (simp add: append_diff_def)
    have d2: "distinct (map fst ?g2)" using Cons.prems(2) False by (simp add: image_iff)
    have img: "fst ` set ?g2 = insert k (fst ` set g)" by auto
    have step: "group_diffs html kf (e # diffs) g = group_diffs html kf diffs ?g2"
      using k t mg g1 a2 by (simp add: getitem_def Let_def)
    have ih: "group_diffs html kf diffs ?g2 =
       Inr (map (\<lambda>(k, (ds, w)). (k, (ds @ descriptions html kf diffs k, w))) ?g2
          @ map (\<lambda>k. (k, (descriptions html kf diffs k, Some [])))
              (first_seen (filter (\<lambda>k. k \<notin> fst ` set ?g2) ?K)))"
      by (rule Cons.IH[OF others d2])
    have old: "map (\<lambda>(k, (ds, w)). (k, (ds @ descriptions html kf diffs k, w))) g
             = map (\<lambda>(k, (ds, w)). (k, (ds @ descriptions html kf (e # diffs) k, w))) g"
    proof (rule map_cong[OF refl])
      fix x assume "x \<in> set g"
      then have "fst x \<in> fst ` set g" by (rule imageI)
      with False have "fst x \<noteq> k" by auto
      then show "(case x of (k, (ds, w)) \<Rightarrow> (k, (ds @ descriptions html kf diffs k, w)))
                 = (case x of (k, (ds, w)) \<Rightarrow> (k, (ds @ descriptions html kf (e # diffs) k, w)))"
        by (simp add: desc case_prod_unfold)
    qed
    have flt: "filter (\<lambda>k. k \<notin> fst ` set ?g2) ?K
             = filter (\<lambda>y. y \<noteq> k) (filter (\<lambda>k. k \<notin> fst ` set g) ?K)"
      unfolding img by (auto intro: filter_cong)
    have new: "map (\<lambda>k'. (k', (descriptions html kf diffs k', Some [])))
                 (first_seen (filter (\<lambda>y. y \<noteq> k) (filter (\<lambda>k. k \<notin> fst ` set g) ?K)))
             = map (\<lambda>k'. (k', (descriptions html kf (e # diffs) k', Some [])))
                 (first_seen (filter (\<lambda>y. y \<noteq> k) (filter (\<lambda>k. k \<notin> fst ` set g) ?K)))"
    proof (rule map_cong[OF refl])
      fix k' assume "k' \<in> set (first_seen (filter (\<lambda>y. y \<noteq> k) (filter (\<lambda>k. k \<notin> fst ` set g) ?K)))"
      then have "k' \<noteq> k" by (auto simp: set_first_seen)
      then show "(k', (descriptions html kf diffs k', Some []))
                 = (k', (descriptions html kf (e # diffs) k', Some []))"
        by (simp add: desc)
    qed
    show ?thesis
      unfolding step ih flt new using False
      by (simp add: old k desc)
  qed
qed

lemma output_row_eq:
  assumes "kf \<noteq> S ''product_websites''" "kf \<noteq> S ''differences''"
  shows "output_row kf sku (ds, w) = [Some sku, w, Some (join (S ''; '') ds)]"
  using assms by (simp add: output_row_def update_conv')

text \<open>
  What \<open>write_report\<close> writes for a non-empty diff sequence whose entries all have a
  key and can be rendered, when the key column is not named \<open>product_websites\<close> or
  \<open>differences\<close> and the output path has a directory part: one row per distinct key,
  in the order in which the keys first occur, holding the key, the auxiliary value and
  the key's rendered descriptions joined with \<open>"; "\<close>.
\<close>

lemma write_report_rows:
  assumes "diffs \<noteq> []"
    and "\<forall>e\<in>set diffs. (\<exists>k. map_of e kf = Some k) \<and> (\<exists>t. render_diff html e = Inr t)"
    and "kf \<noteq> S ''product_websites''" "kf \<noteq> S ''differences''"
    and "dirname out \<noteq> []"
  shows "write_report diffs html staging out kf =
     Inr \<lparr>printed = [ReportGenerated out, TotalDifferences (length diffs)],
          written = Some (out, [kf, S ''product_websites'', S ''differences''],
                          map (report_row html kf staging diffs)
                            (first_seen (map (\<lambda>e. the (map_of e kf)) diffs)))\<rparr>"
proof -
  have g: "group_diffs html kf diffs [] =
     Inr (map (\<lambda>k. (k, (descriptions html kf diffs k, Some [])))
            (first_seen (map (\<lambda>e. the (map_of e kf)) diffs)))"
    using group_diffs_eq[OF assms(2), of "[]"] by simp
  have rows: "map (\<lambda>(sku, info). output_row kf sku info)
               (fill_websites staging
                 (map (\<lambda>k. (k, (descriptions html kf diffs k, Some [])))
                    (first_seen (map (\<lambda>e. the (map_of e kf)) diffs))))
             = map (report_row html kf staging diffs)
                 (first_seen (map (\<lambda>e. the (map_of e kf)) diffs))"
    by (simp add: fill_websites_def o_def output_row_eq[OF assms(3,4)] report_row_def)
  show ?thesis
    using assms(1,5) by (simp add: write_report_def g rows)
qed

text \<open>
  An output path without a directory part makes \<open>write_report\<close> raise, whatever the
  non-empty diff sequence that can be grouped.
\<close>

lemma write_report_no_directory:
  "write_report
     [mk_entry (S ''sku'') (S ''A1'') (S ''different_value'') (S ''color'') (S ''red'') (S ''blue'')]
     [] [] (S ''out.csv'') (S ''sku'') = Inl FileNotFoundError"
  by (simp add: write_report_def mk_entry_def getitem_def render_diff_def is_html_field_def
        render_value_def arrow_def append_diff_def dirname_def)

text \<open>
  Claim C8, at the input where the code leaves it: one \<open>different_value\<close> entry for
  key \<open>A1\<close>, field \<open>color\<close>, values \<open>red\<close> and \<open>blue\<close>, written to
  \<open>output/diff_report.csv\<close>. The description that \<open>write_report\<close> writes holds,
  between the two values, the three code points of \<open>arrow\<close> as the source has them,
  not the arrow U+2192 of the claim.
\<close>

theorem write_report_arrow_literal:
  "write_report
     [mk_entry (S ''sku'') (S ''A1'') (S ''different_value'') (S ''color'') (S ''red'') (S ''blue'')]
     [] [] (S ''output/diff_report.csv'') (S ''sku'') =
   Inr \<lparr>printed = [ReportGenerated (S ''output/diff_report.csv''), TotalDifferences 1],
        written = Some (S ''output/diff_report.csv'',
                        [S ''sku'', S ''product_websites'', S ''differences''],
                        [[Some (S ''A1''), Some [],
                          Some (S ''color [red '' @ [226, 8224, 8217] @ S '' blue]'')]])\<rparr> \<and>
   S ''color [red '' @ [226, 8224, 8217] @ S '' blue]'' \<noteq> S ''color [red '' @ [8594] @ S '' blue]''"
  by (simp add: write_report_def mk_entry_def getitem_def render_diff_def is_html_field_def
        render_value_def arrow_def append_diff_def fill_websites_def websites_of_def
        row_falsy_def output_row_def dirname_def)

text \<open>
  Claim C9. For the empty sequence of diff entries \<open>write_report\<close> prints the notice
  that there are no differences and does nothing else: nothing more is printed and no
  file is written.
\<close>

theorem write_report_empty:
  "write_report [] html_fields staging_data output_file key_field =
     Inr \<lparr>printed = [NoDifferences], written = None\<rparr>"
  by (simp add: write_report_def)

end
